theory Spec2Isabelle
  imports Main "HOL-Library.Word" "HOL-Library.Signed_Division" "HOL-Library.AList"
    "HOL-Library.Multiset"
begin

section \<open>Values seen by the aggregate\<close>

text \<open>
  A \<open>net.Addr\<close> is observed by \<open>udp_mux_multi.go\<close> in two ways only: through
  \<open>addr.String()\<close> and through \<open>addr.(*net.UDPAddr).IP.String()\<close>. An address is
  modelled by what these return. \<open>UDPAddr s ip\<close> is a \<open>*net.UDPAddr\<close> whose \<open>String()\<close>
  is \<open>s\<close> and whose \<open>IP.String()\<close> is \<open>ip\<close>; \<open>OtherAddr s\<close> is any other
  implementation of \<open>net.Addr\<close>, on which the type assertion panics.
\<close>

datatype Addr = UDPAddr string string | OtherAddr string

text \<open>The run-time panics the code can raise.\<close>

datatype panic = IndexOutOfRange | IntegerDivideByZero | InterfaceConversion

fun Addr_String :: "Addr \<Rightarrow> string" where
  "Addr_String (UDPAddr s ip) = s"
| "Addr_String (OtherAddr s) = s"

fun UDPAddr_IP_String :: "Addr \<Rightarrow> panic + string" where
  "UDPAddr_IP_String (UDPAddr s ip) = Inr ip"
| "UDPAddr_IP_String (OtherAddr s) = Inl InterfaceConversion"

text \<open>
  Go \<open>error\<close> values. \<open>errNoUDPMuxAvailable\<close> is the package's sentinel returned by
  \<open>GetConn\<close> for an unknown address; \<open>ErrWrap msg e\<close> is \<open>fmt.Errorf(msg + ": %w", e)\<close>.
\<close>

datatype error = errNoUDPMuxAvailable | ErrOther string | ErrWrap string error

text \<open>
  Packet connections: a socket opened by \<open>ListenUDP\<close>, or the write-batching wrapper
  \<open>tudp.NewBatchConn(conn, size, interval)\<close> around one.
\<close>

datatype PacketConn = UDPConn nat | BatchConn PacketConn int int

section \<open>Address Balancer\<close>

type_synonym int32 = "32 word"

text \<open>
  Go's \<open>%\<close> on \<open>int32\<close>: the remainder of the division truncated towards zero (its sign is
  the dividend's), and a run-time panic when the divisor is zero.
\<close>

definition rem_int32 :: "int32 \<Rightarrow> int32 \<Rightarrow> panic + int32" where
  "rem_int32 a b =
     (if b = 0 then Inl IntegerDivideByZero
      else Inr (word_of_int (sint a smod sint b)))"

text \<open>Slice indexing \<open>xs[i]\<close> with an \<open>int32\<close> index: a panic outside \<open>0 \<le> i < len(xs)\<close>.\<close>

definition index_int32 :: "'a list \<Rightarrow> int32 \<Rightarrow> panic + 'a" where
  "index_int32 xs i =
     (if 0 \<le> sint i \<and> nat (sint i) < length xs then Inr (xs ! nat (sint i))
      else Inl IndexOutOfRange)"

record multiPortsAddress =
  addresses :: "Addr list"
  nextPos :: int32

text \<open>
  \<open>multiPortsAddress.next\<close>:
  \<open>addr.addresses[addr.nextPos.Add(1) % int32(len(addr.addresses))]\<close>.
  \<open>atomic.Int32.Add\<close> adds with wrap-around and returns the new value; \<open>int32(len(...))\<close>
  truncates the length to 32 bits.
\<close>

definition next_addr :: "multiPortsAddress \<Rightarrow> panic + (Addr \<times> multiPortsAddress)" where
  "next_addr addr =
     (let pos = nextPos addr + 1;
          addr' = addr\<lparr>nextPos := pos\<rparr>
      in case rem_int32 pos (word_of_nat (length (addresses addr))) of
           Inl p \<Rightarrow> Inl p
         | Inr i \<Rightarrow>
             (case index_int32 (addresses addr) i of
                Inl p \<Rightarrow> Inl p
              | Inr a \<Rightarrow> Inr (a, addr')))"

text \<open>\<open>n\<close> consecutive sequential calls of \<open>next\<close> on one group, collecting what they return.\<close>

fun next_n :: "nat \<Rightarrow> multiPortsAddress \<Rightarrow> panic + (Addr list \<times> multiPortsAddress)" where
  "next_n 0 addr = Inr ([], addr)"
| "next_n (Suc n) addr =
     (case next_addr addr of
        Inl p \<Rightarrow> Inl p
      | Inr (a, addr') \<Rightarrow>
          (case next_n n addr' of
             Inl p \<Rightarrow> Inl p
           | Inr (as, addr'') \<Rightarrow> Inr (a # as, addr'')))"

section \<open>Constituent multiplexers\<close>

text \<open>
  A \<open>UDPMux\<close> is an interface value; a constituent is identified by a number, and what its
  four methods do is a parameter of the model (\<open>'w UDPMux_impl\<close>): each method reads and
  changes the world \<open>'w\<close> outside the aggregate. \<open>GetConn\<close> returns Go's pair
  \<open>(net.PacketConn, error)\<close>, each component possibly nil.
\<close>

type_synonym UDPMux = nat

record 'w UDPMux_impl =
  impl_GetConn ::
    "UDPMux \<Rightarrow> string \<Rightarrow> Addr \<Rightarrow> 'w \<Rightarrow> (PacketConn option \<times> error option) \<times> 'w"
  impl_RemoveConnByUfrag :: "UDPMux \<Rightarrow> string \<Rightarrow> 'w \<Rightarrow> 'w"
  impl_Close :: "UDPMux \<Rightarrow> 'w \<Rightarrow> error option \<times> 'w"
  impl_GetListenAddresses :: "UDPMux \<Rightarrow> 'w \<Rightarrow> Addr list \<times> 'w"

text \<open>
  The network side used by \<open>NewMultiUDPMuxFromPorts\<close>: \<open>stdnet.NewNet\<close>,
  \<open>localInterfaces\<close>, \<open>ListenUDP\<close>, the socket's buffer setters and \<open>Close\<close>, and
  \<open>NewUDPMuxDefault\<close>. They are parameters as well.
\<close>

type_synonym IP = "8 word list"
type_synonym Net = nat
type_synonym LeveledLogger = nat

datatype NetworkType = NetworkTypeUDP4 | NetworkTypeUDP6 | NetworkTypeTCP4 | NetworkTypeTCP6

record 'w net_impl =
  impl_NewNet :: "'w \<Rightarrow> (Net option \<times> error option) \<times> 'w"
  impl_localInterfaces ::
    "Net option \<Rightarrow> (string \<Rightarrow> bool) option \<Rightarrow> (IP \<Rightarrow> bool) option \<Rightarrow> NetworkType list
       \<Rightarrow> bool \<Rightarrow> 'w \<Rightarrow> (IP list \<times> error option) \<times> 'w"
  impl_ListenUDP :: "Net option \<Rightarrow> IP \<Rightarrow> int \<Rightarrow> 'w \<Rightarrow> (error + PacketConn) \<times> 'w"
  impl_SetReadBuffer :: "PacketConn \<Rightarrow> int \<Rightarrow> 'w \<Rightarrow> 'w"
  impl_SetWriteBuffer :: "PacketConn \<Rightarrow> int \<Rightarrow> 'w \<Rightarrow> 'w"
  impl_conn_Close :: "PacketConn \<Rightarrow> 'w \<Rightarrow> 'w"
  impl_NewUDPMuxDefault ::
    "LeveledLogger option \<Rightarrow> PacketConn \<Rightarrow> Net option \<Rightarrow> 'w \<Rightarrow> UDPMux \<times> 'w"

text \<open>
  Every call that leaves the aggregate is recorded, with what it returned, in a trace kept
  next to the world.
\<close>

datatype event =
    CallGetConn UDPMux string Addr "PacketConn option" "error option"
  | CallRemoveConnByUfrag UDPMux string
  | CallClose UDPMux "error option"
  | CallGetListenAddresses UDPMux "Addr list"
  | CallNewNet "Net option" "error option"
  | CallLocalInterfaces "IP list" "error option"
  | CallListenUDP IP int "error + PacketConn"
  | CallSetReadBuffer PacketConn int
  | CallSetWriteBuffer PacketConn int
  | CallConnClose PacketConn
  | CallNewUDPMuxDefault PacketConn UDPMux

record 'w state =
  world :: 'w
  trace :: "event list"

definition events_since :: "'w state \<Rightarrow> 'w state \<Rightarrow> event list" where
  "events_since s s' = drop (length (trace s)) (trace s')"

definition mux_GetConn ::
  "'w UDPMux_impl \<Rightarrow> UDPMux \<Rightarrow> string \<Rightarrow> Addr \<Rightarrow> 'w state
     \<Rightarrow> (PacketConn option \<times> error option) \<times> 'w state" where
  "mux_GetConn E mux ufrag addr s =
     (case impl_GetConn E mux ufrag addr (world s) of
        ((c, e), w') \<Rightarrow>
          ((c, e), \<lparr>world = w', trace = trace s @ [CallGetConn mux ufrag addr c e]\<rparr>))"

definition mux_RemoveConnByUfrag ::
  "'w UDPMux_impl \<Rightarrow> UDPMux \<Rightarrow> string \<Rightarrow> 'w state \<Rightarrow> 'w state" where
  "mux_RemoveConnByUfrag E mux ufrag s =
     \<lparr>world = impl_RemoveConnByUfrag E mux ufrag (world s),
      trace = trace s @ [CallRemoveConnByUfrag mux ufrag]\<rparr>"

definition mux_Close ::
  "'w UDPMux_impl \<Rightarrow> UDPMux \<Rightarrow> 'w state \<Rightarrow> error option \<times> 'w state" where
  "mux_Close E mux s =
     (case impl_Close E mux (world s) of
        (e, w') \<Rightarrow> (e, \<lparr>world = w', trace = trace s @ [CallClose mux e]\<rparr>))"

definition mux_GetListenAddresses ::
  "'w UDPMux_impl \<Rightarrow> UDPMux \<Rightarrow> 'w state \<Rightarrow> Addr list \<times> 'w state" where
  "mux_GetListenAddresses E mux s =
     (case impl_GetListenAddresses E mux (world s) of
        (as, w') \<Rightarrow>
          (as, \<lparr>world = w', trace = trace s @ [CallGetListenAddresses mux as]\<rparr>))"

section \<open>Aggregation Facade\<close>

record MultiUDPMuxDefault =
  muxes :: "UDPMux list"
  localAddrToMux :: "string \<rightharpoonup> UDPMux"
  multiPortsAddresses :: "multiPortsAddress list"

text \<open>
  \<open>ipToAddrs\<close>, the Go map from IP string to group built during construction, is kept as an
  association list with one entry per key, in the order the keys were first inserted.
\<close>

type_synonym ipToAddrs = "(string \<times> multiPortsAddress) list"

text \<open>The body of the inner loop of \<open>NewMultiUDPMuxDefault\<close>, for one reported address.\<close>

definition add_addr ::
  "UDPMux \<Rightarrow> Addr \<Rightarrow> (string \<rightharpoonup> UDPMux) \<times> ipToAddrs
     \<Rightarrow> panic + (string \<rightharpoonup> UDPMux) \<times> ipToAddrs" where
  "add_addr mux addr st =
     (case st of (addrToMux, ipToAddrs) \<Rightarrow>
        let addrToMux' = addrToMux(Addr_String addr \<mapsto> mux)
        in case UDPAddr_IP_String addr of
             Inl p \<Rightarrow> Inl p
           | Inr ip \<Rightarrow>
               (case map_of ipToAddrs ip of
                  Some mpa \<Rightarrow>
                    Inr (addrToMux',
                         AList.update ip (mpa\<lparr>addresses := addresses mpa @ [addr]\<rparr>) ipToAddrs)
                | None \<Rightarrow>
                    Inr (addrToMux',
                         ipToAddrs @ [(ip, \<lparr>addresses = [addr], nextPos = 0\<rparr>)])))"

fun add_addrs ::
  "UDPMux \<Rightarrow> Addr list \<Rightarrow> (string \<rightharpoonup> UDPMux) \<times> ipToAddrs
     \<Rightarrow> panic + (string \<rightharpoonup> UDPMux) \<times> ipToAddrs" where
  "add_addrs mux [] st = Inr st"
| "add_addrs mux (addr # as) st =
     (case add_addr mux addr st of
        Inl p \<Rightarrow> Inl p
      | Inr st' \<Rightarrow> add_addrs mux as st')"

fun add_muxes ::
  "'w UDPMux_impl \<Rightarrow> UDPMux list \<Rightarrow> (string \<rightharpoonup> UDPMux) \<times> ipToAddrs \<Rightarrow> 'w state
     \<Rightarrow> (panic + (string \<rightharpoonup> UDPMux) \<times> ipToAddrs) \<times> 'w state" where
  "add_muxes E [] st s = (Inr st, s)"
| "add_muxes E (mux # ms) st s =
     (case mux_GetListenAddresses E mux s of
        (as, s') \<Rightarrow>
          (case add_addrs mux as st of
             Inl p \<Rightarrow> (Inl p, s')
           | Inr st' \<Rightarrow> add_muxes E ms st' s'))"

text \<open>
  \<open>NewMultiUDPMuxDefault\<close>. The second loop ranges over the Go map \<open>ipToAddrs\<close>, whose
  iteration order the language leaves open: \<open>range_order\<close> is the order the run time picks,
  a rearrangement of the entries.
\<close>

definition NewMultiUDPMuxDefault ::
  "'w UDPMux_impl \<Rightarrow> (ipToAddrs \<Rightarrow> ipToAddrs) \<Rightarrow> UDPMux list \<Rightarrow> 'w state
     \<Rightarrow> (panic + MultiUDPMuxDefault) \<times> 'w state" where
  "NewMultiUDPMuxDefault E range_order ms s =
     (case add_muxes E ms (Map.empty, []) s of
        (Inl p, s') \<Rightarrow> (Inl p, s')
      | (Inr (addrToMux, ipToAddrs), s') \<Rightarrow>
          (Inr \<lparr>muxes = ms,
                localAddrToMux = addrToMux,
                multiPortsAddresses = map snd (range_order ipToAddrs)\<rparr>, s'))"

definition GetConn ::
  "'w UDPMux_impl \<Rightarrow> MultiUDPMuxDefault \<Rightarrow> string \<Rightarrow> Addr \<Rightarrow> 'w state
     \<Rightarrow> (PacketConn option \<times> error option) \<times> 'w state" where
  "GetConn E m ufrag addr s =
     (case localAddrToMux m (Addr_String addr) of
        None \<Rightarrow> ((None, Some errNoUDPMuxAvailable), s)
      | Some mux \<Rightarrow> mux_GetConn E mux ufrag addr s)"

fun RemoveConnByUfrag_loop ::
  "'w UDPMux_impl \<Rightarrow> UDPMux list \<Rightarrow> string \<Rightarrow> 'w state \<Rightarrow> 'w state" where
  "RemoveConnByUfrag_loop E [] ufrag s = s"
| "RemoveConnByUfrag_loop E (mux # ms) ufrag s =
     RemoveConnByUfrag_loop E ms ufrag (mux_RemoveConnByUfrag E mux ufrag s)"

definition RemoveConnByUfrag ::
  "'w UDPMux_impl \<Rightarrow> MultiUDPMuxDefault \<Rightarrow> string \<Rightarrow> 'w state \<Rightarrow> 'w state" where
  "RemoveConnByUfrag E m ufrag s = RemoveConnByUfrag_loop E (muxes m) ufrag s"

fun Close_loop ::
  "'w UDPMux_impl \<Rightarrow> UDPMux list \<Rightarrow> error option \<Rightarrow> 'w state
     \<Rightarrow> error option \<times> 'w state" where
  "Close_loop E [] err s = (err, s)"
| "Close_loop E (mux # ms) err s =
     (case mux_Close E mux s of
        (e, s') \<Rightarrow> Close_loop E ms (if e \<noteq> None then e else err) s')"

definition Close ::
  "'w UDPMux_impl \<Rightarrow> MultiUDPMuxDefault \<Rightarrow> 'w state \<Rightarrow> error option \<times> 'w state" where
  "Close E m s = Close_loop E (muxes m) None s"

fun GetListenAddresses_loop ::
  "multiPortsAddress list \<Rightarrow> panic + (Addr list \<times> multiPortsAddress list)" where
  "GetListenAddresses_loop [] = Inr ([], [])"
| "GetListenAddresses_loop (mpa # rest) =
     (case next_addr mpa of
        Inl p \<Rightarrow> Inl p
      | Inr (a, mpa') \<Rightarrow>
          (case GetListenAddresses_loop rest of
             Inl p \<Rightarrow> Inl p
           | Inr (addrs, rest') \<Rightarrow> Inr (a # addrs, mpa' # rest')))"

definition GetListenAddresses ::
  "MultiUDPMuxDefault \<Rightarrow> panic + (Addr list \<times> MultiUDPMuxDefault)" where
  "GetListenAddresses m =
     (case GetListenAddresses_loop (multiPortsAddresses m) of
        Inl p \<Rightarrow> Inl p
      | Inr (addrs, mpas) \<Rightarrow> Inr (addrs, m\<lparr>multiPortsAddresses := mpas\<rparr>))"

text \<open>\<open>n\<close> consecutive calls of \<open>GetListenAddresses\<close>, collecting the lists they return.\<close>

fun GetListenAddresses_n ::
  "nat \<Rightarrow> MultiUDPMuxDefault \<Rightarrow> panic + (Addr list list \<times> MultiUDPMuxDefault)" where
  "GetListenAddresses_n 0 m = Inr ([], m)"
| "GetListenAddresses_n (Suc n) m =
     (case GetListenAddresses m of
        Inl p \<Rightarrow> Inl p
      | Inr (addrs, m') \<Rightarrow>
          (case GetListenAddresses_n n m' of
             Inl p \<Rightarrow> Inl p
           | Inr (ls, m'') \<Rightarrow> Inr (addrs # ls, m'')))"

section \<open>Socket Factory\<close>

record multiUDPMuxFromPortParam =
  ifFilter :: "(string \<Rightarrow> bool) option"
  ipFilter :: "(IP \<Rightarrow> bool) option"
  networks :: "NetworkType list"
  readBufferSize :: int
  writeBufferSize :: int
  logger :: "LeveledLogger option"
  includeLoopback :: bool
  net :: "Net option"
  batchWriteSize :: int
  batchWriteInterval :: int

datatype UDPMuxFromPortOption =
    UDPMuxFromPortWithInterfaceFilter "(string \<Rightarrow> bool) option"
  | UDPMuxFromPortWithIPFilter "(IP \<Rightarrow> bool) option"
  | UDPMuxFromPortWithNetworks "NetworkType list"
  | UDPMuxFromPortWithReadBufferSize int
  | UDPMuxFromPortWithWriteBufferSize int
  | UDPMuxFromPortWithLogger "LeveledLogger option"
  | UDPMuxFromPortWithLoopback
  | UDPMuxFromPortWithNet "Net option"
  | UDPMuxFromPortWithBatchWrite int int

fun apply_option ::
  "UDPMuxFromPortOption \<Rightarrow> multiUDPMuxFromPortParam \<Rightarrow> multiUDPMuxFromPortParam" where
  "apply_option (UDPMuxFromPortWithInterfaceFilter f) p = p\<lparr>ifFilter := f\<rparr>"
| "apply_option (UDPMuxFromPortWithIPFilter f) p = p\<lparr>ipFilter := f\<rparr>"
| "apply_option (UDPMuxFromPortWithNetworks ns) p = p\<lparr>networks := ns\<rparr>"
| "apply_option (UDPMuxFromPortWithReadBufferSize sz) p = p\<lparr>readBufferSize := sz\<rparr>"
| "apply_option (UDPMuxFromPortWithWriteBufferSize sz) p = p\<lparr>writeBufferSize := sz\<rparr>"
| "apply_option (UDPMuxFromPortWithLogger l) p = p\<lparr>logger := l\<rparr>"
| "apply_option UDPMuxFromPortWithLoopback p = p\<lparr>includeLoopback := True\<rparr>"
| "apply_option (UDPMuxFromPortWithNet n) p = p\<lparr>net := n\<rparr>"
| "apply_option (UDPMuxFromPortWithBatchWrite sz interval) p =
     p\<lparr>batchWriteSize := sz, batchWriteInterval := interval\<rparr>"

text \<open>
  The parameters after the options have been applied, in the order supplied, to the initial
  value (both UDP families, every other field Go's zero value).
\<close>

definition initial_params :: multiUDPMuxFromPortParam where
  "initial_params =
     \<lparr>ifFilter = None, ipFilter = None,
      networks = [NetworkTypeUDP4, NetworkTypeUDP6],
      readBufferSize = 0, writeBufferSize = 0, logger = None,
      includeLoopback = False, net = None,
      batchWriteSize = 0, batchWriteInterval = 0\<rparr>"

definition apply_options :: "UDPMuxFromPortOption list \<Rightarrow> multiUDPMuxFromPortParam" where
  "apply_options opts = foldl (\<lambda>p opt. apply_option opt p) initial_params opts"

definition stdnet_NewNet :: "'w net_impl \<Rightarrow> 'w state \<Rightarrow> (Net option \<times> error option) \<times> 'w state" where
  "stdnet_NewNet N s =
     (case impl_NewNet N (world s) of
        ((n, e), w') \<Rightarrow> ((n, e), \<lparr>world = w', trace = trace s @ [CallNewNet n e]\<rparr>))"

definition localInterfaces ::
  "'w net_impl \<Rightarrow> multiUDPMuxFromPortParam \<Rightarrow> 'w state
     \<Rightarrow> (IP list \<times> error option) \<times> 'w state" where
  "localInterfaces N p s =
     (case impl_localInterfaces N (net p) (ifFilter p) (ipFilter p) (networks p)
             (includeLoopback p) (world s) of
        ((ips, e), w') \<Rightarrow>
          ((ips, e), \<lparr>world = w', trace = trace s @ [CallLocalInterfaces ips e]\<rparr>))"

definition net_ListenUDP ::
  "'w net_impl \<Rightarrow> Net option \<Rightarrow> IP \<Rightarrow> int \<Rightarrow> 'w state \<Rightarrow> (error + PacketConn) \<times> 'w state" where
  "net_ListenUDP N n ip port s =
     (case impl_ListenUDP N n ip port (world s) of
        (r, w') \<Rightarrow> (r, \<lparr>world = w', trace = trace s @ [CallListenUDP ip port r]\<rparr>))"

definition conn_SetReadBuffer :: "'w net_impl \<Rightarrow> PacketConn \<Rightarrow> int \<Rightarrow> 'w state \<Rightarrow> 'w state" where
  "conn_SetReadBuffer N conn sz s =
     \<lparr>world = impl_SetReadBuffer N conn sz (world s),
      trace = trace s @ [CallSetReadBuffer conn sz]\<rparr>"

definition conn_SetWriteBuffer :: "'w net_impl \<Rightarrow> PacketConn \<Rightarrow> int \<Rightarrow> 'w state \<Rightarrow> 'w state" where
  "conn_SetWriteBuffer N conn sz s =
     \<lparr>world = impl_SetWriteBuffer N conn sz (world s),
      trace = trace s @ [CallSetWriteBuffer conn sz]\<rparr>"

definition conn_Close :: "'w net_impl \<Rightarrow> PacketConn \<Rightarrow> 'w state \<Rightarrow> 'w state" where
  "conn_Close N conn s =
     \<lparr>world = impl_conn_Close N conn (world s), trace = trace s @ [CallConnClose conn]\<rparr>"

definition NewUDPMuxDefault ::
  "'w net_impl \<Rightarrow> multiUDPMuxFromPortParam \<Rightarrow> PacketConn \<Rightarrow> 'w state \<Rightarrow> UDPMux \<times> 'w state" where
  "NewUDPMuxDefault N p conn s =
     (case impl_NewUDPMuxDefault N (logger p) conn (net p) (world s) of
        (mux, w') \<Rightarrow> (mux, \<lparr>world = w', trace = trace s @ [CallNewUDPMuxDefault conn mux]\<rparr>))"

text \<open>What the loop appends to \<open>conns\<close> for a socket it has opened.\<close>

definition wrap_conn :: "multiUDPMuxFromPortParam \<Rightarrow> PacketConn \<Rightarrow> PacketConn" where
  "wrap_conn p conn =
     (if batchWriteSize p > 0 then BatchConn conn (batchWriteSize p) (batchWriteInterval p)
      else conn)"

text \<open>
  The inner loop of \<open>NewMultiUDPMuxFromPorts\<close> (over the ports, for one IP). It returns
  \<open>conns\<close> and \<open>err\<close> as they stand when the loop is left.
\<close>

fun listen_ports ::
  "'w net_impl \<Rightarrow> multiUDPMuxFromPortParam \<Rightarrow> IP \<Rightarrow> int list \<Rightarrow> PacketConn list \<Rightarrow> 'w state
     \<Rightarrow> (PacketConn list \<times> error option) \<times> 'w state" where
  "listen_ports N p ip [] conns s = ((conns, None), s)"
| "listen_ports N p ip (port # ports) conns s =
     (case net_ListenUDP N (net p) ip port s of
        (Inl listenErr, s1) \<Rightarrow> ((conns, Some listenErr), s1)
      | (Inr conn, s1) \<Rightarrow>
          (let s2 = (if readBufferSize p > 0
                     then conn_SetReadBuffer N conn (readBufferSize p) s1 else s1);
               s3 = (if writeBufferSize p > 0
                     then conn_SetWriteBuffer N conn (writeBufferSize p) s2 else s2)
           in listen_ports N p ip ports (conns @ [wrap_conn p conn]) s3))"

text \<open>The outer loop (over the IPs), left as soon as \<open>err\<close> is set.\<close>

fun listen_ips ::
  "'w net_impl \<Rightarrow> multiUDPMuxFromPortParam \<Rightarrow> IP list \<Rightarrow> int list \<Rightarrow> PacketConn list
     \<Rightarrow> 'w state \<Rightarrow> (PacketConn list \<times> error option) \<times> 'w state" where
  "listen_ips N p [] ports conns s = ((conns, None), s)"
| "listen_ips N p (ip # ips) ports conns s =
     (case listen_ports N p ip ports conns s of
        ((conns', Some err), s') \<Rightarrow> ((conns', Some err), s')
      | ((conns', None), s') \<Rightarrow> listen_ips N p ips ports conns' s')"

fun close_conns :: "'w net_impl \<Rightarrow> PacketConn list \<Rightarrow> 'w state \<Rightarrow> 'w state" where
  "close_conns N [] s = s"
| "close_conns N (conn # conns) s = close_conns N conns (conn_Close N conn s)"

fun new_muxes ::
  "'w net_impl \<Rightarrow> multiUDPMuxFromPortParam \<Rightarrow> PacketConn list \<Rightarrow> 'w state
     \<Rightarrow> UDPMux list \<times> 'w state" where
  "new_muxes N p [] s = ([], s)"
| "new_muxes N p (conn # conns) s =
     (case NewUDPMuxDefault N p conn s of
        (mux, s') \<Rightarrow>
          (case new_muxes N p conns s' of
             (ms, s'') \<Rightarrow> (mux # ms, s'')))"

text \<open>
  \<open>NewMultiUDPMuxFromPorts\<close>. The Go result \<open>(*MultiUDPMuxDefault, error)\<close> is a pair of
  options; a panic raised inside \<open>NewMultiUDPMuxDefault\<close> passes through.
\<close>

definition NewMultiUDPMuxFromPorts ::
  "'w UDPMux_impl \<Rightarrow> 'w net_impl \<Rightarrow> (ipToAddrs \<Rightarrow> ipToAddrs) \<Rightarrow> int list
     \<Rightarrow> UDPMuxFromPortOption list \<Rightarrow> 'w state
     \<Rightarrow> (panic + (MultiUDPMuxDefault option \<times> error option)) \<times> 'w state" where
  "NewMultiUDPMuxFromPorts E N range_order ports opts s =
     (let params = apply_options opts;
          ((n, nerr), s1) =
            (if net params = None then stdnet_NewNet N s else ((net params, None), s))
      in case nerr of
           Some err \<Rightarrow> (Inr (None, Some (ErrWrap ''failed to get create network'' err)), s1)
         | None \<Rightarrow>
             (let params = params\<lparr>net := n\<rparr>
              in case localInterfaces N params s1 of
                   ((ips, Some err), s2) \<Rightarrow> (Inr (None, Some err), s2)
                 | ((ips, None), s2) \<Rightarrow>
                     (case listen_ips N params ips ports [] s2 of
                        ((conns, Some err), s3) \<Rightarrow>
                          (Inr (None, Some err), close_conns N conns s3)
                      | ((conns, None), s3) \<Rightarrow>
                          (case new_muxes N params conns s3 of
                             (ms, s4) \<Rightarrow>
                               (case NewMultiUDPMuxDefault E range_order ms s4 of
                                  (Inl p, s5) \<Rightarrow> (Inl p, s5)
                                | (Inr m, s5) \<Rightarrow> (Inr (Some m, None), s5))))))"

definition NewMultiUDPMuxFromPort ::
  "'w UDPMux_impl \<Rightarrow> 'w net_impl \<Rightarrow> (ipToAddrs \<Rightarrow> ipToAddrs) \<Rightarrow> int
     \<Rightarrow> UDPMuxFromPortOption list \<Rightarrow> 'w state
     \<Rightarrow> (panic + (MultiUDPMuxDefault option \<times> error option)) \<times> 'w state" where
  "NewMultiUDPMuxFromPort E N range_order port opts s =
     NewMultiUDPMuxFromPorts E N range_order [port] opts s"

section \<open>Vocabulary of the statements\<close>

text \<open>A group of three ports of one IP, as construction leaves it.\<close>

definition group3 :: multiPortsAddress where
  "group3 =
     \<lparr>addresses = [UDPAddr ''10.0.0.1:100'' ''10.0.0.1'',
                   UDPAddr ''10.0.0.1:200'' ''10.0.0.1'',
                   UDPAddr ''10.0.0.1:300'' ''10.0.0.1''],
      nextPos = 0\<rparr>"

text \<open>
  What the model asks of the order in which the run time ranges over the Go map: the
  entries come out rearranged, none lost and none twice.
\<close>

definition is_range_order :: "(ipToAddrs \<Rightarrow> ipToAddrs) \<Rightarrow> bool" where
  "is_range_order f \<longleftrightarrow> (\<forall>al. mset (f al) = mset al)"

text \<open>The last error in a sequence of \<open>Close\<close> outcomes; nil when every one is nil.\<close>

definition last_error :: "error option list \<Rightarrow> error option" where
  "last_error outs = (case filter (\<lambda>e. e \<noteq> None) outs of [] \<Rightarrow> None | es \<Rightarrow> last es)"

text \<open>
  The (address string, multiplexer) pairs that the \<open>GetListenAddresses\<close> calls of a trace
  reported, in order.
\<close>

fun reported :: "event list \<Rightarrow> (string \<times> UDPMux) list" where
  "reported [] = []"
| "reported (CallGetListenAddresses mux as # tr) =
     map (\<lambda>a. (Addr_String a, mux)) as @ reported tr"
| "reported (ev # tr) = reported tr"

text \<open>The multiplexers whose \<open>GetListenAddresses\<close> a trace records, in order.\<close>

fun queried :: "event list \<Rightarrow> UDPMux list" where
  "queried [] = []"
| "queried (CallGetListenAddresses mux as # tr) = mux # queried tr"
| "queried (ev # tr) = queried tr"

text \<open>
  What \<open>conns\<close> holds for the successful \<open>ListenUDP\<close> calls of a trace: the sockets, wrapped
  when batching is configured.
\<close>

fun opened :: "multiUDPMuxFromPortParam \<Rightarrow> event list \<Rightarrow> PacketConn list" where
  "opened p [] = []"
| "opened p (CallListenUDP ip port (Inr conn) # tr) = wrap_conn p conn # opened p tr"
| "opened p (ev # tr) = opened p tr"

text \<open>A \<open>ListenUDP\<close> call that returned an error.\<close>

fun listen_failed :: "event \<Rightarrow> bool" where
  "listen_failed (CallListenUDP ip port (Inl e)) = True"
| "listen_failed ev = False"

definition no_listen_failed :: "event list \<Rightarrow> bool" where
  "no_listen_failed tr \<longleftrightarrow> (\<forall>ev \<in> set tr. \<not> listen_failed ev)"

text \<open>
  How the listen loops are left, given \<open>err\<close>, their events and the world: without a failed
  listen when \<open>err\<close> is nil; otherwise right after the one failed listen, which returned
  \<open>err\<close> and left that world.
\<close>

definition left_loop :: "'w net_impl \<Rightarrow> error option \<Rightarrow> event list \<Rightarrow> 'w \<Rightarrow> bool" where
  "left_loop N err tr w \<longleftrightarrow>
     (case err of
        None \<Rightarrow> no_listen_failed tr
      | Some e \<Rightarrow>
          (\<exists>pre ip port n w0. tr = pre @ [CallListenUDP ip port (Inl e)]
             \<and> no_listen_failed pre
             \<and> impl_ListenUDP N n ip port w0 = (Inl e, w)))"

text \<open>The addresses reported in a trace, in order.\<close>

fun reported_addrs :: "event list \<Rightarrow> Addr list" where
  "reported_addrs [] = []"
| "reported_addrs (CallGetListenAddresses mux as # tr) = as @ reported_addrs tr"
| "reported_addrs (ev # tr) = reported_addrs tr"

text \<open>
  The group of an IP after the addresses \<open>R\<close> have been reported: those of \<open>R\<close> with that IP,
  in the order reported, and the cursor at 0.
\<close>

definition group_of :: "Addr list \<Rightarrow> string \<Rightarrow> multiPortsAddress" where
  "group_of R ip = \<lparr>addresses = filter (\<lambda>a. UDPAddr_IP_String a = Inr ip) R, nextPos = 0\<rparr>"

definition grouping :: "Addr list \<Rightarrow> string \<rightharpoonup> multiPortsAddress" where
  "grouping R = (\<lambda>ip. if Inr ip \<in> UDPAddr_IP_String ` set R then Some (group_of R ip) else None)"

text \<open>
  The state of \<open>ipToAddrs\<close> once the addresses \<open>R\<close> have gone through the loop: one entry per
  IP string seen, holding the group of that IP, and every address a \<open>*net.UDPAddr\<close>.
\<close>

definition grouped :: "Addr list \<Rightarrow> ipToAddrs \<Rightarrow> bool" where
  "grouped R al \<longleftrightarrow>
     distinct (map fst al) \<and> map_of al = grouping R
     \<and> (\<forall>a \<in> set R. \<exists>ip. UDPAddr_IP_String a = Inr ip)"

text \<open>The groups with every cursor at \<open>c\<close>.\<close>

definition set_pos :: "nat \<Rightarrow> multiPortsAddress list \<Rightarrow> multiPortsAddress list" where
  "set_pos c gs = map (\<lambda>g. g\<lparr>nextPos := word_of_nat c\<rparr>) gs"

text \<open>The addresses, multiplexers and network of the worked examples.\<close>

definition a100 :: Addr where "a100 = UDPAddr ''10.0.0.1:100'' ''10.0.0.1''"

definition a200 :: Addr where "a200 = UDPAddr ''10.0.0.1:200'' ''10.0.0.1''"

definition a300 :: Addr where "a300 = UDPAddr ''10.0.0.1:300'' ''10.0.0.1''"

definition b300 :: Addr where "b300 = UDPAddr ''10.0.0.2:300'' ''10.0.0.2''"

text \<open>
  Multiplexers: 0 listens on two ports of 10.0.0.1, 1 on one port of 10.0.0.2, 2 reports the
  first address of 0 again, 3 listens on three ports of 10.0.0.1, any other reports no
  address. \<open>Close\<close> fails on 0, 2 and 4. The world counts the calls that change it.
\<close>

definition example_muxes :: "nat UDPMux_impl" where
  "example_muxes =
     \<lparr>impl_GetConn = (\<lambda>mux ufrag addr w. ((Some (UDPConn mux), None), Suc w)),
      impl_RemoveConnByUfrag = (\<lambda>mux ufrag w. Suc w),
      impl_Close = (\<lambda>mux w.
        (if mux = 0 then Some (ErrOther ''close 0'')
         else if mux = 2 then Some (ErrOther ''close 2'')
         else if mux = 4 then Some (ErrOther ''close 4'') else None, Suc w)),
      impl_GetListenAddresses = (\<lambda>mux w.
        (if mux = 0 then [a100, a200]
         else if mux = 1 then [b300]
         else if mux = 2 then [a100]
         else if mux = 3 then [a100, a200, a300]
         else [], w))\<rparr>"

definition s0 :: "nat state" where
  "s0 = \<lparr>world = 0, trace = []\<rparr>"

text \<open>What \<open>NewMultiUDPMuxDefault\<close> builds from multiplexer 3 alone.\<close>

definition aggregate3 :: MultiUDPMuxDefault where
  "aggregate3 =
     \<lparr>muxes = [3],
      localAddrToMux = [''10.0.0.1:100'' \<mapsto> 3, ''10.0.0.1:200'' \<mapsto> 3, ''10.0.0.1:300'' \<mapsto> 3],
      multiPortsAddresses = [group3]\<rparr>"

text \<open>What it builds from multiplexers 0 and 1.\<close>

definition example_aggregate :: MultiUDPMuxDefault where
  "example_aggregate =
     \<lparr>muxes = [0, 1],
      localAddrToMux = [''10.0.0.1:100'' \<mapsto> 0, ''10.0.0.1:200'' \<mapsto> 0, ''10.0.0.2:300'' \<mapsto> 1],
      multiPortsAddresses =
        [\<lparr>addresses = [a100, a200], nextPos = 0\<rparr>, \<lparr>addresses = [b300], nextPos = 0\<rparr>]\<rparr>"

text \<open>
  A network with five local IPs on which the third \<open>ListenUDP\<close> fails; a \<open>ListenUDP\<close>
  adds 1 to the world and a \<open>Close\<close> of a connection adds 100.
\<close>

definition example_net :: "nat net_impl" where
  "example_net =
     \<lparr>impl_NewNet = (\<lambda>w. ((Some 0, None), w)),
      impl_localInterfaces = (\<lambda>n iff ipf nets lo w.
        (([[10, 0, 0, 1], [10, 0, 0, 2], [10, 0, 0, 3], [10, 0, 0, 4], [10, 0, 0, 5]], None), w)),
      impl_ListenUDP = (\<lambda>n ip port w.
        (if w = 2 then Inl (ErrOther ''bind: address already in use'') else Inr (UDPConn w),
         Suc w)),
      impl_SetReadBuffer = (\<lambda>conn sz w. w),
      impl_SetWriteBuffer = (\<lambda>conn sz w. w),
      impl_conn_Close = (\<lambda>conn w. w + 100),
      impl_NewUDPMuxDefault = (\<lambda>l conn n w. (0, w))\<rparr>"

text \<open>The state in which construction from port 5000 ends on that network.\<close>

definition third_listen_failed :: "nat state" where
  "third_listen_failed =
     \<lparr>world = 203,
      trace =
        [CallNewNet (Some 0) None,
         CallLocalInterfaces
           [[10, 0, 0, 1], [10, 0, 0, 2], [10, 0, 0, 3], [10, 0, 0, 4], [10, 0, 0, 5]] None,
         CallListenUDP [10, 0, 0, 1] 5000 (Inr (UDPConn 0)),
         CallListenUDP [10, 0, 0, 2] 5000 (Inr (UDPConn 1)),
         CallListenUDP [10, 0, 0, 3] 5000 (Inl (ErrOther ''bind: address already in use'')),
         CallConnClose (UDPConn 0),
         CallConnClose (UDPConn 1)]\<rparr>"

text \<open>The map ranged over in the order its keys were inserted.\<close>

definition insertion_order :: "ipToAddrs \<Rightarrow> ipToAddrs" where
  "insertion_order al = al"

text \<open>
  What \<open>NewMultiUDPMuxDefault\<close> builds from multiplexer 4, which reports no address, and the
  state it leaves.
\<close>

definition silent_aggregate :: MultiUDPMuxDefault where
  "silent_aggregate = \<lparr>muxes = [4], localAddrToMux = Map.empty, multiPortsAddresses = []\<rparr>"

definition silent_built :: "nat state" where
  "silent_built = \<lparr>world = 0, trace = [CallGetListenAddresses 4 []]\<rparr>"

section \<open>Properties\<close>

subsection \<open>Cursor arithmetic\<close>

lemma sint_succ:
  assumes "sint (c::int32) < 2^31 - 1"
  shows "sint (c + 1) = sint c + 1"
proof -
  have "- (2^31) \<le> sint c" using sint_ge [of c] by simp
  then show ?thesis using assms
    by (simp add: sint_word_ariths signed_take_bit_int_eq_self)
qed

lemma sint_int32_of_int:
  assumes "0 \<le> k" "k < 2^31"
  shows "sint (word_of_int k :: int32) = k"
  using assms by (simp add: sint_sbintrunc' signed_take_bit_int_eq_self)

lemma sint_int32_of_nat:
  assumes "n < 2^31"
  shows "sint (word_of_nat n :: int32) = int n"
proof -
  have "int n < 2^31" using assms by (simp add: of_nat_less_iff [of n "2^31", simplified])
  then have "sint (word_of_int (int n) :: int32) = int n"
    by (intro sint_int32_of_int) simp_all
  then show ?thesis by simp
qed

lemma rem_int32_nonneg:
  assumes "0 \<le> sint a" "0 < n" "n < 2^31"
  shows "rem_int32 a (word_of_nat n) = Inr (word_of_int (sint a mod int n))"
proof -
  have n: "sint (word_of_nat n :: int32) = int n" using assms by (simp add: sint_int32_of_nat)
  then have nz: "(word_of_nat n :: int32) \<noteq> 0" using assms(2)
    by (metis of_nat_0_less_iff less_irrefl sint_0)
  have "sint a smod int n = sint a mod int n"
    using assms(1,2) by (cases "sint a = 0") (simp_all add: smod_int_alt_def)
  then show ?thesis using nz n by (simp add: rem_int32_def)
qed

subsection \<open>The balancer before the cursor overflows\<close>

text \<open>
  While the cursor is non-negative and below the largest \<open>int32\<close>, \<open>next()\<close> returns the
  address at index (cursor + 1) modulo the size of the group.
\<close>

lemma next_addr_in_range:
  assumes "0 < length (addresses g)" "length (addresses g) < 2^31"
    and "0 \<le> sint (nextPos g)" "sint (nextPos g) < 2^31 - 1"
  shows "next_addr g =
    Inr (addresses g ! ((nat (sint (nextPos g)) + 1) mod length (addresses g)),
         g\<lparr>nextPos := nextPos g + 1\<rparr>)"
proof -
  let ?n = "length (addresses g)"
  let ?c = "sint (nextPos g) + 1"
  have c: "sint (nextPos g + 1) = ?c" using assms(4) by (rule sint_succ)
  have r: "rem_int32 (nextPos g + 1) (word_of_nat ?n) = Inr (word_of_int (?c mod int ?n))"
    using rem_int32_nonneg [of "nextPos g + 1" ?n] assms c by simp
  have lo: "0 \<le> ?c mod int ?n" using assms(1) by simp
  have hi: "?c mod int ?n < int ?n" using assms(1) by simp
  have "int ?n < 2^31" using assms(2) by (simp add: of_nat_less_iff [of ?n "2^31", simplified])
  then have s: "sint (word_of_int (?c mod int ?n) :: int32) = ?c mod int ?n"
    using lo hi by (simp add: sint_int32_of_int)
  have m: "nat (?c mod int ?n) = (nat (sint (nextPos g)) + 1) mod ?n"
    using assms(3) by (simp add: nat_mod_distrib nat_add_distrib)
  have "index_int32 (addresses g) (word_of_int (?c mod int ?n)) =
        Inr (addresses g ! ((nat (sint (nextPos g)) + 1) mod ?n))"
    unfolding index_int32_def s using lo hi m assms(1) by simp
  then show ?thesis using r by (simp add: next_addr_def Let_def)
qed

lemma next_n_in_range:
  assumes "0 < length (addresses g)" "length (addresses g) < 2^31"
    and "0 \<le> sint (nextPos g)" "sint (nextPos g) + int k \<le> 2^31 - 1"
  shows "next_n k g =
    Inr (map (\<lambda>j. addresses g ! ((nat (sint (nextPos g)) + j + 1) mod length (addresses g))) [0..<k],
         g\<lparr>nextPos := nextPos g + word_of_nat k\<rparr>)"
  using assms
proof (induction k arbitrary: g)
  case 0
  then show ?case by simp
next
  case (Suc k)
  let ?g1 = "g\<lparr>nextPos := nextPos g + 1\<rparr>"
  have lt: "sint (nextPos g) < 2^31 - 1" using Suc.prems(4) by simp
  have step: "next_addr g =
      Inr (addresses g ! ((nat (sint (nextPos g)) + 1) mod length (addresses g)), ?g1)"
    using Suc.prems(1-3) lt by (rule next_addr_in_range)
  have c1: "sint (nextPos ?g1) = sint (nextPos g) + 1" using lt by (simp add: sint_succ)
  have ih: "next_n k ?g1 =
      Inr (map (\<lambda>j. addresses ?g1 ! ((nat (sint (nextPos ?g1)) + j + 1) mod length (addresses ?g1))) [0..<k],
           ?g1\<lparr>nextPos := nextPos ?g1 + word_of_nat k\<rparr>)"
    using Suc.prems c1 by (intro Suc.IH) simp_all
  have n1: "nat (sint (nextPos g) + 1) = Suc (nat (sint (nextPos g)))"
    using Suc.prems(3) by simp
  have "map (\<lambda>j. addresses g ! ((nat (sint (nextPos g)) + j + 1) mod length (addresses g))) [0..<Suc k]
      = addresses g ! ((nat (sint (nextPos g)) + 1) mod length (addresses g))
        # map (\<lambda>j. addresses g ! ((nat (sint (nextPos g) + 1) + j + 1) mod length (addresses g))) [0..<k]"
    unfolding n1 by (simp add: map_upt_Suc del: upt_Suc)
  then show ?case using step ih c1 by (simp add: add.assoc del: upt_Suc)
qed


lemma next_n_append:
  "next_n (a + b) g =
     (case next_n a g of
        Inl p \<Rightarrow> Inl p
      | Inr (xs, g') \<Rightarrow>
          (case next_n b g' of
             Inl p \<Rightarrow> Inl p
           | Inr (ys, g'') \<Rightarrow> Inr (xs @ ys, g'')))"
  by (induction a arbitrary: g) (auto split: sum.splits prod.splits)

text \<open>A group of one address returns it on every call, whatever the cursor.\<close>

lemma next_addr_single:
  assumes "addresses g = [a]"
  shows "next_addr g = Inr (a, g\<lparr>nextPos := nextPos g + 1\<rparr>)"
  using assms by (simp add: next_addr_def rem_int32_def index_int32_def smod_int_alt_def)


subsection \<open>The balancer at the overflow\<close>

lemma group3_reach:
  assumes "k \<le> 2147483647"
  shows "next_n k group3 =
     Inr (map (\<lambda>j. addresses group3 ! ((j + 1) mod 3)) [0..<k], group3\<lparr>nextPos := word_of_nat k\<rparr>)"
proof -
  have "int k \<le> 2147483647" using assms by simp
  then have "next_n k group3 =
      Inr (map (\<lambda>j. addresses group3 ! ((nat (sint (nextPos group3)) + j + 1) mod length (addresses group3))) [0..<k],
           group3\<lparr>nextPos := nextPos group3 + word_of_nat k\<rparr>)"
    by (intro next_n_in_range) (simp_all add: group3_def)
  then show ?thesis by (simp add: group3_def)
qed

text \<open>
  Claim C2. The claim says that \<open>next()\<close> returns a member of the group after any number
  of earlier calls, also past the overflow of the \<open>int32\<close> cursor. On a group of three
  addresses the first 2147483647 calls all return, and leave the cursor at 2147483647;
  the call after them wraps the cursor to \<open>-2147483648\<close>, whose remainder by 3 is \<open>-2\<close>,
  and the indexing panics.
\<close>

theorem next_panics_after_overflow:
  "next_n 2147483647 group3 =
     Inr (map (\<lambda>j. addresses group3 ! ((j + 1) mod 3)) [0..<2147483647],
          group3\<lparr>nextPos := 2147483647\<rparr>)
   \<and> next_addr (group3\<lparr>nextPos := 2147483647\<rparr>) = Inl IndexOutOfRange"
proof -
  have "next_n 2147483647 group3 =
     Inr (map (\<lambda>j. addresses group3 ! ((j + 1) mod 3)) [0..<2147483647],
          group3\<lparr>nextPos := word_of_nat 2147483647\<rparr>)"
    by (rule group3_reach) simp
  moreover have "next_addr (group3\<lparr>nextPos := 2147483647\<rparr>) = Inl IndexOutOfRange"
    by (simp add: group3_def next_addr_def rem_int32_def index_int32_def smod_int_alt_def)
  ultimately show ?thesis by simp
qed

text \<open>
  Claim C3. The claim says that any \<open>N\<close> consecutive calls on a group of size \<open>N\<close> return
  every member once. On the group of three addresses, the three consecutive calls that
  follow the first 2147483645 do not: the third of them panics.
\<close>

theorem cycle_broken_at_overflow:
  "next_n 2147483645 group3 =
     Inr (map (\<lambda>j. addresses group3 ! ((j + 1) mod 3)) [0..<2147483645],
          group3\<lparr>nextPos := 2147483645\<rparr>)
   \<and> next_n 3 (group3\<lparr>nextPos := 2147483645\<rparr>) = Inl IndexOutOfRange"
proof -
  have "next_n 2147483645 group3 =
     Inr (map (\<lambda>j. addresses group3 ! ((j + 1) mod 3)) [0..<2147483645],
          group3\<lparr>nextPos := word_of_nat 2147483645\<rparr>)"
    by (rule group3_reach) simp
  moreover have "next_n 3 (group3\<lparr>nextPos := 2147483645\<rparr>) = Inl IndexOutOfRange"
    by (simp add: numeral_3_eq_3 group3_def next_addr_def rem_int32_def index_int32_def smod_int_alt_def)
  ultimately show ?thesis by simp
qed

subsection \<open>Close\<close>

lemma Close_loop_trace:
  "Close_loop E ms err s = (r, s') \<Longrightarrow>
     \<exists>outs. length outs = length ms
       \<and> trace s' = trace s @ map2 CallClose ms outs
       \<and> r = (case filter (\<lambda>e. e \<noteq> None) outs of [] \<Rightarrow> err | es \<Rightarrow> last es)"
proof (induction ms arbitrary: err s)
  case Nil
  then show ?case by simp
next
  case (Cons mux ms)
  obtain e s1 where c: "mux_Close E mux s = (e, s1)" by (cases "mux_Close E mux s")
  then have t1: "trace s1 = trace s @ [CallClose mux e]"
    by (auto simp: mux_Close_def split: prod.splits)
  from Cons.prems c have "Close_loop E ms (if e \<noteq> None then e else err) s1 = (r, s')" by simp
  from Cons.IH [OF this] obtain outs where o: "length outs = length ms"
    "trace s' = trace s1 @ map2 CallClose ms outs"
    "r = (case filter (\<lambda>e. e \<noteq> None) outs of [] \<Rightarrow> (if e \<noteq> None then e else err) | es \<Rightarrow> last es)"
    by blast
  have "length (e # outs) = length (mux # ms)" using o(1) by simp
  moreover have "trace s' = trace s @ map2 CallClose (mux # ms) (e # outs)"
    using o(2) t1 by simp
  moreover have "r = (case filter (\<lambda>e. e \<noteq> None) (e # outs) of [] \<Rightarrow> err | es \<Rightarrow> last es)"
    using o(3) by (auto split: list.splits)
  ultimately show ?case by blast
qed

text \<open>
  The result of \<open>Close()\<close> is nil exactly when every constituent closed
  without error.
\<close>

lemma last_error_None_iff: "last_error outs = None \<longleftrightarrow> (\<forall>e \<in> set outs. e = None)"
proof (cases "filter (\<lambda>e. e \<noteq> None) outs = []")
  case True
  then show ?thesis by (simp add: last_error_def filter_empty_conv)
next
  case False
  then have "last (filter (\<lambda>e. e \<noteq> None) outs) \<in> set (filter (\<lambda>e. e \<noteq> None) outs)"
    by (rule last_in_set)
  then have l: "last (filter (\<lambda>e. e \<noteq> None) outs) \<noteq> None" by simp
  have "last_error outs = last (filter (\<lambda>e. e \<noteq> None) outs)"
    using False by (simp add: last_error_def split: list.splits)
  moreover have "\<not> (\<forall>e \<in> set outs. e = None)"
    using False by (simp add: filter_empty_conv)
  ultimately show ?thesis using l by auto
qed

text \<open>
  Claim C5. \<open>Close()\<close> calls \<open>Close\<close> on every constituent once, in the order of
  \<open>muxes\<close>, whatever the earlier calls returned: the trace grows by exactly one
  \<open>CallClose\<close> per constituent. It returns the last non-nil error among the outcomes, and
  nil when there is none.
\<close>

theorem Close_attempts_all:
  "\<exists>outs. length outs = length (muxes m)
     \<and> trace (snd (Close E m s)) = trace s @ map2 CallClose (muxes m) outs
     \<and> fst (Close E m s) = last_error outs"
  using Close_loop_trace [of E "muxes m" None s "fst (Close E m s)" "snd (Close E m s)"]
  by (simp add: Close_def last_error_def)

text \<open>
  Four constituents, of which the first and the third fail: the third's error is returned.
\<close>

theorem Close_attempts_all_witness:
  "Close example_muxes \<lparr>muxes = [0, 1, 2, 1], localAddrToMux = Map.empty, multiPortsAddresses = []\<rparr> s0 =
     (Some (ErrOther ''close 2''),
      \<lparr>world = 4,
        trace = [CallClose 0 (Some (ErrOther ''close 0'')), CallClose 1 None,
                 CallClose 2 (Some (ErrOther ''close 2'')), CallClose 1 None]\<rparr>)
   \<and> last_error [Some (ErrOther ''close 0''), None, Some (ErrOther ''close 2''), None] =
       Some (ErrOther ''close 2'')"
  using Close_attempts_all [of "\<lparr>muxes = [0, 1, 2, 1], localAddrToMux = Map.empty, multiPortsAddresses = []\<rparr>"
      example_muxes s0]
  by (simp add: Close_def mux_Close_def example_muxes_def s0_def last_error_def)

subsection \<open>RemoveConnByUfrag\<close>

lemma RemoveConnByUfrag_loop_trace:
  "trace (RemoveConnByUfrag_loop E ms ufrag s) =
     trace s @ map (\<lambda>mux. CallRemoveConnByUfrag mux ufrag) ms"
  by (induction ms arbitrary: s) (simp_all add: mux_RemoveConnByUfrag_def)

lemma RemoveConnByUfrag_loop_world:
  "world (RemoveConnByUfrag_loop E ms ufrag s) =
     fold (\<lambda>mux. impl_RemoveConnByUfrag E mux ufrag) ms (world s)"
  by (induction ms arbitrary: s) (simp_all add: mux_RemoveConnByUfrag_def)

text \<open>
  Claim C8. \<open>RemoveConnByUfrag(ufrag)\<close> calls \<open>RemoveConnByUfrag(ufrag)\<close> on every
  constituent once, in order and without any condition; it returns nothing but the state.
\<close>

theorem RemoveConnByUfrag_calls_all:
  "trace (RemoveConnByUfrag E m ufrag s) =
     trace s @ map (\<lambda>mux. CallRemoveConnByUfrag mux ufrag) (muxes m)
   \<and> world (RemoveConnByUfrag E m ufrag s) =
     fold (\<lambda>mux. impl_RemoveConnByUfrag E mux ufrag) (muxes m) (world s)"
  by (simp add: RemoveConnByUfrag_def RemoveConnByUfrag_loop_trace RemoveConnByUfrag_loop_world)

text \<open>On the aggregate of multiplexers 0 and 1.\<close>

theorem RemoveConnByUfrag_calls_all_witness:
  "RemoveConnByUfrag example_muxes example_aggregate ''ufrag'' s0 =
     \<lparr>world = 2,
      trace = [CallRemoveConnByUfrag 0 ''ufrag'', CallRemoveConnByUfrag 1 ''ufrag'']\<rparr>"
  using RemoveConnByUfrag_calls_all [of example_muxes example_aggregate "''ufrag''" s0]
  by (simp add: RemoveConnByUfrag_def mux_RemoveConnByUfrag_def example_muxes_def
      example_aggregate_def s0_def)

subsection \<open>GetConn\<close>

text \<open>
  Claim C1. \<open>GetConn(ufrag, addr)\<close> on any aggregate: when \<open>addr.String()\<close> is not a key
  of \<open>localAddrToMux\<close> it returns \<open>(nil, errNoUDPMuxAvailable)\<close> and leaves world and
  trace untouched, so no constituent is called; when the key is present it returns exactly
  what the owning multiplexer's \<open>GetConn(ufrag, addr)\<close> returns, and that call is the only
  one made.
\<close>

theorem GetConn_lookup:
  "(localAddrToMux m (Addr_String addr) = None \<longrightarrow>
      GetConn E m ufrag addr s = ((None, Some errNoUDPMuxAvailable), s))
   \<and> (\<forall>mux. localAddrToMux m (Addr_String addr) = Some mux \<longrightarrow>
        fst (GetConn E m ufrag addr s) = fst (impl_GetConn E mux ufrag addr (world s))
      \<and> world (snd (GetConn E m ufrag addr s)) = snd (impl_GetConn E mux ufrag addr (world s))
      \<and> trace (snd (GetConn E m ufrag addr s)) =
          trace s @ [CallGetConn mux ufrag addr
                       (fst (fst (impl_GetConn E mux ufrag addr (world s))))
                       (snd (fst (impl_GetConn E mux ufrag addr (world s))))])"
  by (auto simp: GetConn_def mux_GetConn_def split: prod.splits)

text \<open>
  Both cases on the aggregate of multiplexers 0 and 1: an unknown address, and an address
  of 1.
\<close>

theorem GetConn_lookup_witness:
  "GetConn example_muxes example_aggregate ''ufrag'' (UDPAddr ''10.0.0.9:100'' ''10.0.0.9'') s0 =
     ((None, Some errNoUDPMuxAvailable), s0)
   \<and> fst (GetConn example_muxes example_aggregate ''ufrag'' b300 s0) = (Some (UDPConn 1), None)
   \<and> trace (snd (GetConn example_muxes example_aggregate ''ufrag'' b300 s0)) =
       [CallGetConn 1 ''ufrag'' b300 (Some (UDPConn 1)) None]"
  using GetConn_lookup [of example_aggregate "UDPAddr ''10.0.0.9:100'' ''10.0.0.9''"
      example_muxes "''ufrag''" s0]
    GetConn_lookup [of example_aggregate b300 example_muxes "''ufrag''" s0]
  by (simp add: example_aggregate_def example_muxes_def b300_def s0_def)

subsection \<open>Ranging over an empty map\<close>

lemma range_order_Nil: "is_range_order f \<Longrightarrow> f [] = []"
  unfolding is_range_order_def by (metis mset_zero_iff)

subsection \<open>The address index\<close>

lemma add_addrs_index:
  "add_addrs mux as (a2m, i2a) = Inr (a2m', i2a') \<Longrightarrow>
     a2m' = a2m ++ map_of (rev (map (\<lambda>a. (Addr_String a, mux)) as))"
proof (induction as arbitrary: a2m i2a)
  case Nil
  then show ?case by simp
next
  case (Cons a as)
  from Cons.prems obtain st1 where 1: "add_addr mux a (a2m, i2a) = Inr st1"
    and 2: "add_addrs mux as st1 = Inr (a2m', i2a')"
    by (auto split: sum.splits)
  obtain i1 where st1: "st1 = (a2m(Addr_String a \<mapsto> mux), i1)"
    using 1 by (auto simp: add_addr_def Let_def split: sum.splits option.splits)
  have "add_addrs mux as (a2m(Addr_String a \<mapsto> mux), i1) = Inr (a2m', i2a')"
    using 2 st1 by simp
  then have "a2m' = a2m(Addr_String a \<mapsto> mux) ++ map_of (rev (map (\<lambda>a. (Addr_String a, mux)) as))"
    by (rule Cons.IH)
  also have "\<dots> = a2m ++ (map_of [(Addr_String a, mux)] ++ map_of (rev (map (\<lambda>a. (Addr_String a, mux)) as)))"
    by (simp add: map_add_assoc [symmetric] map_add_upd_left)
  finally show ?case by simp
qed

lemma reported_append: "reported (xs @ ys) = reported xs @ reported ys"
  by (induction xs rule: reported.induct) simp_all

lemma queried_append: "queried (xs @ ys) = queried xs @ queried ys"
  by (induction xs rule: queried.induct) simp_all

lemma add_muxes_index:
  "add_muxes E ms (a2m, i2a) s = (Inr (a2m', i2a'), s') \<Longrightarrow>
     \<exists>tr. trace s' = trace s @ tr \<and> queried tr = ms
        \<and> a2m' = a2m ++ map_of (rev (reported tr))"
proof (induction ms arbitrary: a2m i2a s)
  case Nil
  then show ?case by simp
next
  case (Cons mux ms)
  obtain as s1 where q: "mux_GetListenAddresses E mux s = (as, s1)"
    by (cases "mux_GetListenAddresses E mux s")
  then have t1: "trace s1 = trace s @ [CallGetListenAddresses mux as]"
    by (auto simp: mux_GetListenAddresses_def split: prod.splits)
  from Cons.prems q obtain a1 i1 where 1: "add_addrs mux as (a2m, i2a) = Inr (a1, i1)"
    and 2: "add_muxes E ms (a1, i1) s1 = (Inr (a2m', i2a'), s')"
    by (auto split: sum.splits)
  from Cons.IH [OF 2] obtain tr where tr: "trace s' = trace s1 @ tr" "queried tr = ms"
    "a2m' = a1 ++ map_of (rev (reported tr))" by blast
  have a1: "a1 = a2m ++ map_of (rev (map (\<lambda>a. (Addr_String a, mux)) as))"
    using 1 by (rule add_addrs_index)
  let ?tr = "CallGetListenAddresses mux as # tr"
  have "trace s' = trace s @ ?tr" using tr(1) t1 by simp
  moreover have "queried ?tr = mux # ms" using tr(2) by simp
  moreover have "a2m' = a2m ++ map_of (rev (reported ?tr))"
    using tr(3) a1 by simp
  ultimately show ?case by blast
qed

lemma NewMultiUDPMuxDefault_index:
  assumes "NewMultiUDPMuxDefault E range_order ms s = (Inr m, s')"
  shows "trace s' = trace s @ events_since s s'"
    and "queried (events_since s s') = ms"
    and "localAddrToMux m = map_of (rev (reported (events_since s s')))"
proof -
  from assms obtain a2m i2a where am: "add_muxes E ms (Map.empty, []) s = (Inr (a2m, i2a), s')"
    and m: "localAddrToMux m = a2m"
    by (auto simp: NewMultiUDPMuxDefault_def split: prod.splits sum.splits)
  from add_muxes_index [OF am] obtain tr where tr: "trace s' = trace s @ tr" "queried tr = ms"
    "a2m = Map.empty ++ map_of (rev (reported tr))" by blast
  have ev: "events_since s s' = tr" using tr(1) by (simp add: events_since_def)
  show "trace s' = trace s @ events_since s s'" using tr(1) ev by simp
  show "queried (events_since s s') = ms" using tr(2) ev by simp
  show "localAddrToMux m = map_of (rev (reported (events_since s s')))"
    using tr(3) ev m by simp
qed

lemma map_of_rev_last:
  assumes "kvs = xs @ (k, v) # ys" "k \<notin> fst ` set ys"
  shows "map_of (rev kvs) k = Some v"
proof -
  have "map_of (rev ys) k = None" using assms(2) by (simp add: map_of_eq_None_iff)
  then show ?thesis using assms(1) by (simp add: map_add_def)
qed

text \<open>
  Claim C7. Construction queries the multiplexers in the order supplied, and the address
  index is the map of the reported (address string, multiplexer) pairs in which a later
  report overrides an earlier one: its keys are exactly the reported address strings, and
  \<open>GetConn\<close> on an address delegates to the multiplexer of the last report of its string.
\<close>

theorem address_index_last_report_wins:
  assumes "NewMultiUDPMuxDefault E range_order ms s = (Inr m, s')"
  shows "queried (events_since s s') = ms
       \<and> localAddrToMux m = map_of (rev (reported (events_since s s')))
       \<and> dom (localAddrToMux m) = fst ` set (reported (events_since s s'))
       \<and> (\<forall>xs ys mux. reported (events_since s s') = xs @ (Addr_String addr, mux) # ys
              \<and> Addr_String addr \<notin> fst ` set ys
            \<longrightarrow> GetConn E m ufrag addr s'' = mux_GetConn E mux ufrag addr s'')"
proof -
  note ix = NewMultiUDPMuxDefault_index [OF assms]
  have d: "dom (localAddrToMux m) = fst ` set (reported (events_since s s'))"
    unfolding ix(3) by (simp add: dom_map_of_conv_image_fst)
  have g: "GetConn E m ufrag addr s'' = mux_GetConn E mux ufrag addr s''"
    if "reported (events_since s s') = xs @ (Addr_String addr, mux) # ys"
      "Addr_String addr \<notin> fst ` set ys" for xs ys mux
  proof -
    have "localAddrToMux m (Addr_String addr) = Some mux"
      unfolding ix(3) using that by (rule map_of_rev_last)
    then show ?thesis by (simp add: GetConn_def)
  qed
  show ?thesis using ix(2,3) d g by blast
qed

text \<open>
  Multiplexers 0 and 2 both report 10.0.0.1:100: \<open>GetConn\<close> on it delegates to 2, the later
  one.
\<close>

theorem address_index_last_report_wins_witness:
  "NewMultiUDPMuxDefault example_muxes (\<lambda>al. al) [0, 1, 2] s0 =
     (Inr \<lparr>muxes = [0, 1, 2],
           localAddrToMux = [''10.0.0.1:100'' \<mapsto> 0, ''10.0.0.1:200'' \<mapsto> 0,
                             ''10.0.0.2:300'' \<mapsto> 1, ''10.0.0.1:100'' \<mapsto> 2],
           multiPortsAddresses =
             [\<lparr>addresses = [a100, a200, a100], nextPos = 0\<rparr>,
              \<lparr>addresses = [b300], nextPos = 0\<rparr>]\<rparr>,
      \<lparr>world = 0,
        trace = [CallGetListenAddresses 0 [a100, a200], CallGetListenAddresses 1 [b300],
                 CallGetListenAddresses 2 [a100]]\<rparr>)
   \<and> GetConn example_muxes
        \<lparr>muxes = [0, 1, 2],
          localAddrToMux = [''10.0.0.1:100'' \<mapsto> 0, ''10.0.0.1:200'' \<mapsto> 0,
                            ''10.0.0.2:300'' \<mapsto> 1, ''10.0.0.1:100'' \<mapsto> 2],
          multiPortsAddresses =
            [\<lparr>addresses = [a100, a200, a100], nextPos = 0\<rparr>,
             \<lparr>addresses = [b300], nextPos = 0\<rparr>]\<rparr>
        ''ufrag'' a100 s0 =
      ((Some (UDPConn 2), None),
       \<lparr>world = 1, trace = [CallGetConn 2 ''ufrag'' a100 (Some (UDPConn 2)) None]\<rparr>)"
proof -
  let ?m = "\<lparr>muxes = [0, 1, 2],
           localAddrToMux = [''10.0.0.1:100'' \<mapsto> 0, ''10.0.0.1:200'' \<mapsto> 0,
                             ''10.0.0.2:300'' \<mapsto> 1, ''10.0.0.1:100'' \<mapsto> 2],
           multiPortsAddresses =
             [\<lparr>addresses = [a100, a200, a100], nextPos = 0\<rparr>,
              \<lparr>addresses = [b300], nextPos = 0\<rparr>]\<rparr>"
  let ?s = "\<lparr>world = 0 :: nat,
        trace = [CallGetListenAddresses 0 [a100, a200], CallGetListenAddresses 1 [b300],
                 CallGetListenAddresses 2 [a100]]\<rparr>"
  have run: "NewMultiUDPMuxDefault example_muxes (\<lambda>al. al) [0, 1, 2] s0 = (Inr ?m, ?s)"
    by (simp add: NewMultiUDPMuxDefault_def example_muxes_def s0_def
        mux_GetListenAddresses_def add_addr_def a100_def a200_def b300_def)
  have rep: "reported (events_since s0 ?s) =
      [(''10.0.0.1:100'', 0), (''10.0.0.1:200'', 0), (''10.0.0.2:300'', 1)]
      @ (Addr_String a100, 2) # []
    \<and> Addr_String a100 \<notin> fst ` set []"
    by (simp add: events_since_def s0_def a100_def a200_def b300_def)
  from address_index_last_report_wins [OF run, of a100 "''ufrag''" s0] rep
  have "GetConn example_muxes ?m ''ufrag'' a100 s0 = mux_GetConn example_muxes 2 ''ufrag'' a100 s0"
    by blast
  then show ?thesis using run
    by (simp add: mux_GetConn_def example_muxes_def s0_def)
qed

subsection \<open>Construction from ports\<close>

lemma opened_append: "opened p (xs @ ys) = opened p xs @ opened p ys"
  by (induction p xs rule: opened.induct) simp_all

lemma no_listen_failed_simps [simp]:
  "no_listen_failed []"
  "no_listen_failed (ev # tr) \<longleftrightarrow> \<not> listen_failed ev \<and> no_listen_failed tr"
  "no_listen_failed (xs @ ys) \<longleftrightarrow> no_listen_failed xs \<and> no_listen_failed ys"
  by (auto simp: no_listen_failed_def)

lemma left_loop_prepend:
  "no_listen_failed xs \<Longrightarrow> left_loop N err tr w \<Longrightarrow> left_loop N err (xs @ tr) w"
proof (cases err)
  case None
  assume "no_listen_failed xs" "left_loop N err tr w"
  then show ?thesis using None by (simp add: left_loop_def)
next
  case (Some e)
  assume xs: "no_listen_failed xs" and "left_loop N err tr w"
  then obtain pre ip port n w0 where
    "tr = pre @ [CallListenUDP ip port (Inl e)]" "no_listen_failed pre"
    "impl_ListenUDP N n ip port w0 = (Inl e, w)"
    using Some by (auto simp: left_loop_def)
  then have "xs @ tr = (xs @ pre) @ [CallListenUDP ip port (Inl e)]
      \<and> no_listen_failed (xs @ pre) \<and> impl_ListenUDP N n ip port w0 = (Inl e, w)"
    using xs by simp
  then show ?thesis unfolding left_loop_def Some option.case by blast
qed

lemma listen_ports_trace:
  "listen_ports N p ip ports conns s = ((conns', err), s') \<Longrightarrow>
     \<exists>tr. trace s' = trace s @ tr \<and> conns' = conns @ opened p tr
       \<and> left_loop N err tr (world s')"
proof (induction ports arbitrary: conns s)
  case Nil
  then have "trace s' = trace s @ [] \<and> conns' = conns @ opened p []
      \<and> left_loop N err [] (world s')" by (simp add: left_loop_def)
  then show ?case by blast
next
  case (Cons port ports)
  obtain r w1 where i: "impl_ListenUDP N (net p) ip port (world s) = (r, w1)"
    by (cases "impl_ListenUDP N (net p) ip port (world s)")
  define s1 where "s1 = \<lparr>world = w1, trace = trace s @ [CallListenUDP ip port r]\<rparr>"
  have l: "net_ListenUDP N (net p) ip port s = (r, s1)"
    using i by (simp add: net_ListenUDP_def s1_def)
  have t1: "trace s1 = trace s @ [CallListenUDP ip port r]" and w1: "world s1 = w1"
    by (simp_all add: s1_def)
  show ?case
  proof (cases r)
    case (Inl listenErr)
    with Cons.prems l have e: "conns' = conns" "err = Some listenErr" "s' = s1" by simp_all
    let ?ev = "CallListenUDP ip port (Inl listenErr)"
    have a: "trace s' = trace s @ [?ev]" using e t1 Inl by simp
    have b: "conns' = conns @ opened p [?ev]" using e by simp
    have "[?ev] = [] @ [?ev] \<and> no_listen_failed []
        \<and> impl_ListenUDP N (net p) ip port (world s) = (Inl listenErr, world s')"
      using i Inl e(3) w1 by simp
    then have c: "left_loop N err [?ev] (world s')"
      unfolding left_loop_def e(2) option.case by blast
    from a b c show ?thesis by blast
  next
    case (Inr conn)
    define s2 where "s2 = (if readBufferSize p > 0
                     then conn_SetReadBuffer N conn (readBufferSize p) s1 else s1)"
    define s3 where "s3 = (if writeBufferSize p > 0
                     then conn_SetWriteBuffer N conn (writeBufferSize p) s2 else s2)"
    obtain mid where mid: "trace s3 = trace s1 @ mid" "opened p mid = []" "no_listen_failed mid"
      by (cases "readBufferSize p > 0"; cases "writeBufferSize p > 0")
        (auto simp: s2_def s3_def conn_SetReadBuffer_def conn_SetWriteBuffer_def)
    from Cons.prems l Inr
    have "listen_ports N p ip ports (conns @ [wrap_conn p conn]) s3 = ((conns', err), s')"
      by (auto simp: s2_def s3_def Let_def split: if_splits)
    from Cons.IH [OF this] obtain tr where tr: "trace s' = trace s3 @ tr"
      "conns' = (conns @ [wrap_conn p conn]) @ opened p tr"
      "left_loop N err tr (world s')" by blast
    let ?hd = "CallListenUDP ip port (Inr conn) # mid"
    have a: "trace s' = trace s @ (?hd @ tr)" using tr(1) mid(1) t1 Inr by simp
    have b: "conns' = conns @ opened p (?hd @ tr)"
      using tr(2) mid(2) by (simp add: opened_append)
    have "no_listen_failed ?hd" using mid(3) by simp
    then have c: "left_loop N err (?hd @ tr) (world s')"
      using tr(3) by (rule left_loop_prepend)
    from a b c show ?thesis by blast
  qed
qed

lemma listen_ips_trace:
  "listen_ips N p ips ports conns s = ((conns', err), s') \<Longrightarrow>
     \<exists>tr. trace s' = trace s @ tr \<and> conns' = conns @ opened p tr
       \<and> left_loop N err tr (world s')"
proof (induction ips arbitrary: conns s)
  case Nil
  then have "trace s' = trace s @ [] \<and> conns' = conns @ opened p []
      \<and> left_loop N err [] (world s')" by (simp add: left_loop_def)
  then show ?case by blast
next
  case (Cons ip ips)
  obtain c1 e1 s1 where lp: "listen_ports N p ip ports conns s = ((c1, e1), s1)"
    by (cases "listen_ports N p ip ports conns s") auto
  from listen_ports_trace [OF lp] obtain tr1 where tr1: "trace s1 = trace s @ tr1"
    "c1 = conns @ opened p tr1" "left_loop N e1 tr1 (world s1)" by blast
  show ?case
  proof (cases e1)
    case (Some e)
    with Cons.prems lp have "conns' = c1" "err = e1" "s' = s1" by simp_all
    then show ?thesis using tr1 by blast
  next
    case None
    with Cons.prems lp have "listen_ips N p ips ports c1 s1 = ((conns', err), s')" by simp
    from Cons.IH [OF this] obtain tr where tr: "trace s' = trace s1 @ tr"
      "conns' = c1 @ opened p tr" "left_loop N err tr (world s')" by blast
    have nf: "no_listen_failed tr1" using tr1(3) None by (simp add: left_loop_def)
    have a: "trace s' = trace s @ (tr1 @ tr)" using tr(1) tr1(1) by simp
    have b: "conns' = conns @ opened p (tr1 @ tr)"
      using tr(2) tr1(2) by (simp add: opened_append)
    have c: "left_loop N err (tr1 @ tr) (world s')" using nf tr(3) by (rule left_loop_prepend)
    from a b c show ?thesis by blast
  qed
qed

lemma close_conns_trace:
  "trace (close_conns N conns s) = trace s @ map CallConnClose conns"
  by (induction conns arbitrary: s) (simp_all add: conn_Close_def)

lemma close_conns_world:
  "world (close_conns N conns s) = fold (impl_conn_Close N) conns (world s)"
  by (induction conns arbitrary: s) (simp_all add: conn_Close_def)

lemma new_muxes_trace:
  "new_muxes N p conns s = (ms, s') \<Longrightarrow>
     \<exists>tr. trace s' = trace s @ tr \<and> no_listen_failed tr"
proof (induction conns arbitrary: s ms)
  case Nil
  then show ?case by simp
next
  case (Cons conn conns)
  obtain mux s1 where n: "NewUDPMuxDefault N p conn s = (mux, s1)"
    by (cases "NewUDPMuxDefault N p conn s")
  then have t1: "trace s1 = trace s @ [CallNewUDPMuxDefault conn mux]"
    by (auto simp: NewUDPMuxDefault_def split: prod.splits)
  obtain ms1 s2 where r: "new_muxes N p conns s1 = (ms1, s2)"
    by (cases "new_muxes N p conns s1")
  with Cons.prems n have "s' = s2" by simp
  with r have "new_muxes N p conns s1 = (ms1, s')" by simp
  from Cons.IH [OF this] obtain tr where "trace s' = trace s1 @ tr" "no_listen_failed tr" by blast
  then have "trace s' = trace s @ (CallNewUDPMuxDefault conn mux # tr)
      \<and> no_listen_failed (CallNewUDPMuxDefault conn mux # tr)"
    using t1 by simp
  then show ?case by blast
qed

lemma add_muxes_trace:
  "add_muxes E ms st s = (r, s') \<Longrightarrow>
     \<exists>tr. trace s' = trace s @ tr \<and> no_listen_failed tr"
proof (induction ms arbitrary: st s)
  case Nil
  then show ?case by simp
next
  case (Cons mux ms)
  obtain as s1 where q: "mux_GetListenAddresses E mux s = (as, s1)"
    by (cases "mux_GetListenAddresses E mux s")
  then have t1: "trace s1 = trace s @ [CallGetListenAddresses mux as]"
    by (auto simp: mux_GetListenAddresses_def split: prod.splits)
  show ?case
  proof (cases "add_addrs mux as st")
    case (Inl p)
    with Cons.prems q have "s' = s1" by simp
    then have "trace s' = trace s @ [CallGetListenAddresses mux as]
        \<and> no_listen_failed [CallGetListenAddresses mux as]" using t1 by simp
    then show ?thesis by blast
  next
    case (Inr st')
    with Cons.prems q have "add_muxes E ms st' s1 = (r, s')" by simp
    from Cons.IH [OF this] obtain tr where "trace s' = trace s1 @ tr" "no_listen_failed tr"
      by blast
    then have "trace s' = trace s @ (CallGetListenAddresses mux as # tr)
        \<and> no_listen_failed (CallGetListenAddresses mux as # tr)" using t1 by simp
    then show ?thesis by blast
  qed
qed

lemma NewMultiUDPMuxDefault_trace:
  assumes "NewMultiUDPMuxDefault E range_order ms s = (r, s')"
  shows "\<exists>tr. trace s' = trace s @ tr \<and> no_listen_failed tr"
proof -
  obtain r0 where "add_muxes E ms (Map.empty, []) s = (r0, s')"
    using assms by (auto simp: NewMultiUDPMuxDefault_def split: prod.splits sum.splits)
  then show ?thesis by (rule add_muxes_trace)
qed

lemma wrap_conn_net [simp]: "wrap_conn (p\<lparr>net := n\<rparr>) = wrap_conn p"
  by (rule ext) (simp add: wrap_conn_def)

lemma opened_net [simp]: "opened (p\<lparr>net := n\<rparr>) tr = opened p tr"
  by (induction p tr rule: opened.induct) simp_all

lemma events_since_append: "trace s' = trace s @ tr \<Longrightarrow> events_since s s' = tr"
  by (simp add: events_since_def)

text \<open>
  Claim C6. When a \<open>ListenUDP\<close> call of \<open>NewMultiUDPMuxFromPorts\<close> fails, the events of the
  construction are: events without a failed listen, the failed listen, and then nothing but
  one \<open>Close\<close> for each connection opened before it (as stored in \<open>conns\<close>), in order. No
  further socket is opened. The world at the end is the world the failed listen left, with
  the \<open>Close\<close> of each of those connections applied to it in order, and the result is nil
  together with the error of that listen.
\<close>

theorem NewMultiUDPMuxFromPorts_listen_failure:
  assumes run: "NewMultiUDPMuxFromPorts E N range_order ports opts s = (r, s')"
    and fail: "\<exists>ev \<in> set (events_since s s'). listen_failed ev"
  shows "\<exists>pre ip port e n w0 w.
           events_since s s' =
             pre @ CallListenUDP ip port (Inl e)
                 # map CallConnClose (opened (apply_options opts) pre)
         \<and> no_listen_failed pre
         \<and> impl_ListenUDP N n ip port w0 = (Inl e, w)
         \<and> world s' = fold (impl_conn_Close N) (opened (apply_options opts) pre) w
         \<and> r = Inr (None, Some e)"
proof -
  define p0 where "p0 = apply_options opts"
  obtain n nerr s1 where st1:
    "(if net p0 = None then stdnet_NewNet N s else ((net p0, None), s)) = ((n, nerr), s1)"
    by (metis surj_pair)
  obtain t1 where t1: "trace s1 = trace s @ t1" "no_listen_failed t1" "opened p0 t1 = []"
    using st1 by (cases "net p0 = None")
      (auto simp: stdnet_NewNet_def split: prod.splits)
  have fail': "\<not> no_listen_failed (events_since s s')"
    using fail by (simp add: no_listen_failed_def)
  have run1: "(case nerr of
           Some err \<Rightarrow> (Inr (None, Some (ErrWrap ''failed to get create network'' err)), s1)
         | None \<Rightarrow>
             (case localInterfaces N (p0\<lparr>net := n\<rparr>) s1 of
                   ((ips, Some err), s2) \<Rightarrow> (Inr (None, Some err), s2)
                 | ((ips, None), s2) \<Rightarrow>
                     (case listen_ips N (p0\<lparr>net := n\<rparr>) ips ports [] s2 of
                        ((conns, Some err), s3) \<Rightarrow>
                          (Inr (None, Some err), close_conns N conns s3)
                      | ((conns, None), s3) \<Rightarrow>
                          (case new_muxes N (p0\<lparr>net := n\<rparr>) conns s3 of
                             (ms, s4) \<Rightarrow>
                               (case NewMultiUDPMuxDefault E range_order ms s4 of
                                  (Inl p, s5) \<Rightarrow> (Inl p, s5)
                                | (Inr m, s5) \<Rightarrow> (Inr (Some m, None), s5)))))) = (r, s')"
    using run unfolding NewMultiUDPMuxFromPorts_def Let_def p0_def [symmetric] st1 by simp
  show ?thesis
  proof (cases nerr)
    case (Some err)
    with run1 have "s' = s1" by simp
    then have "events_since s s' = t1" using t1(1) by (simp add: events_since_append)
    with fail' t1(2) show ?thesis by simp
  next
    case None
    define p where "p = p0\<lparr>net := n\<rparr>"
    obtain ips lerr s2 where li: "localInterfaces N p s1 = ((ips, lerr), s2)"
      by (metis surj_pair)
    then have t2: "trace s2 = trace s1 @ [CallLocalInterfaces ips lerr]"
      by (auto simp: localInterfaces_def split: prod.splits)
    show ?thesis
    proof (cases lerr)
      case (Some err)
      with run1 None li have "s' = s2"
        by (simp add: p_def)
      then have "events_since s s' = t1 @ [CallLocalInterfaces ips lerr]"
        using t1(1) t2 by (simp add: events_since_append)
      with fail' t1(2) show ?thesis by simp
    next
      case lnone: None
      obtain conns err s3 where l: "listen_ips N p ips ports [] s2 = ((conns, err), s3)"
        by (metis surj_pair)
      from listen_ips_trace [OF l] obtain tr where tr: "trace s3 = trace s2 @ tr"
        "conns = opened p tr" "left_loop N err tr (world s3)" by auto
      show ?thesis
      proof (cases err)
        case (Some e)
        with run1 None li lnone l have res: "r = Inr (None, Some e)"
          "s' = close_conns N conns s3"
          by (simp_all add: p_def)
        from tr(3) Some obtain pre0 ip' port' n' w0 where
          pre0: "tr = pre0 @ [CallListenUDP ip' port' (Inl e)]" "no_listen_failed pre0"
          and lw: "impl_ListenUDP N n' ip' port' w0 = (Inl e, world s3)"
          by (auto simp: left_loop_def)
        let ?pre = "t1 @ CallLocalInterfaces ips lerr # pre0"
        have c: "conns = opened p0 ?pre"
          using tr(2) pre0(1) t1(3) by (simp add: opened_append p_def)
        have "trace s' = trace s @ (?pre @ CallListenUDP ip' port' (Inl e)
                # map CallConnClose conns)"
          using res(2) tr(1) t2 t1(1) pre0(1) by (simp add: close_conns_trace)
        then have ev: "events_since s s' =
            ?pre @ CallListenUDP ip' port' (Inl e) # map CallConnClose (opened p0 ?pre)"
          using c by (simp add: events_since_append)
        have nf: "no_listen_failed ?pre" using t1(2) pre0(2) by simp
        have w: "world s' = fold (impl_conn_Close N) (opened p0 ?pre) (world s3)"
          using res(2) c by (simp add: close_conns_world)
        from ev nf lw w res(1) show ?thesis unfolding p0_def by blast
      next
        case enone: None
        obtain ms s4 where nm: "new_muxes N p conns s3 = (ms, s4)" by (metis surj_pair)
        obtain r5 s5 where nd: "NewMultiUDPMuxDefault E range_order ms s4 = (r5, s5)"
          by (metis surj_pair)
        from run1 None li lnone l enone nm nd have "s' = s5"
          by (auto simp: p_def split: sum.splits)
        from new_muxes_trace [OF nm] obtain t4 where t4: "trace s4 = trace s3 @ t4"
          "no_listen_failed t4" by blast
        from NewMultiUDPMuxDefault_trace [OF nd] obtain t5 where t5: "trace s5 = trace s4 @ t5"
          "no_listen_failed t5" by blast
        have "events_since s s' = t1 @ CallLocalInterfaces ips lerr # tr @ t4 @ t5"
          using \<open>s' = s5\<close> t5(1) t4(1) tr(1) t2 t1(1) by (simp add: events_since_append)
        moreover have "no_listen_failed tr" using tr(3) enone by (simp add: left_loop_def)
        ultimately show ?thesis using fail' t1(2) t4(2) t5(2) by simp
      qed
    qed
  qed
qed

text \<open>
  Five IPs and one port, the third open fails: two sockets were opened, both are closed
  (each \<open>Close\<close> adds 100 to the world, which ends at 203), and no multiplexer is returned.
\<close>

theorem NewMultiUDPMuxFromPorts_listen_failure_witness:
  "NewMultiUDPMuxFromPorts example_muxes example_net (\<lambda>al. al) [5000] [] s0 =
     (Inr (None, Some (ErrOther ''bind: address already in use'')), third_listen_failed)
   \<and> world third_listen_failed = 203
   \<and> (\<exists>pre ip port e n w0 w.
         events_since s0 third_listen_failed =
           pre @ CallListenUDP ip port (Inl e)
               # map CallConnClose (opened (apply_options []) pre)
       \<and> no_listen_failed pre
       \<and> impl_ListenUDP example_net n ip port w0 = (Inl e, w)
       \<and> world third_listen_failed =
           fold (impl_conn_Close example_net) (opened (apply_options []) pre) w
       \<and> (Inr (None, Some (ErrOther ''bind: address already in use''))
            :: panic + (MultiUDPMuxDefault option \<times> error option)) = Inr (None, Some e))"
proof -
  have run: "NewMultiUDPMuxFromPorts example_muxes example_net (\<lambda>al. al) [5000] [] s0 =
     (Inr (None, Some (ErrOther ''bind: address already in use'')), third_listen_failed)"
    by (simp add: NewMultiUDPMuxFromPorts_def apply_options_def initial_params_def
        example_net_def s0_def third_listen_failed_def stdnet_NewNet_def localInterfaces_def
        net_ListenUDP_def conn_Close_def wrap_conn_def Let_def)
  have fail: "\<exists>ev \<in> set (events_since s0 third_listen_failed). listen_failed ev"
    by (simp add: events_since_def s0_def third_listen_failed_def)
  have w: "world third_listen_failed = 203" by (simp add: third_listen_failed_def)
  from NewMultiUDPMuxFromPorts_listen_failure [OF run fail] run w show ?thesis by blast
qed

subsection \<open>The address groups\<close>

lemma reported_addrs_append:
  "reported_addrs (xs @ ys) = reported_addrs xs @ reported_addrs ys"
  by (induction xs rule: reported_addrs.induct) simp_all

lemma grouped_Nil: "grouped [] []"
  by (simp add: grouped_def grouping_def)

lemma grouping_snoc:
  assumes "UDPAddr_IP_String a = Inr ip"
  shows "grouping (R @ [a]) = (grouping R)(ip \<mapsto> group_of (R @ [a]) ip)"
proof (rule ext)
  fix k
  show "grouping (R @ [a]) k = ((grouping R)(ip \<mapsto> group_of (R @ [a]) ip)) k"
  proof (cases "k = ip")
    case True
    then show ?thesis using assms by (simp add: grouping_def)
  next
    case False
    then have "Inr k \<noteq> UDPAddr_IP_String a" using assms by simp
    then show ?thesis using False by (auto simp: grouping_def group_of_def)
  qed
qed

lemma add_addr_grouped:
  assumes "grouped R al" "add_addr mux a (a2m, al) = Inr (a2m', al')"
  shows "grouped (R @ [a]) al'"
proof -
  from assms(2) obtain ip where ip: "UDPAddr_IP_String a = Inr ip"
    by (auto simp: add_addr_def Let_def split: sum.splits)
  have d: "distinct (map fst al)" and m: "map_of al = grouping R"
    using assms(1) by (simp_all add: grouped_def)
  have u: "\<forall>a \<in> set (R @ [a]). \<exists>ip. UDPAddr_IP_String a = Inr ip"
    using assms(1) ip by (auto simp: grouped_def)
  show ?thesis
  proof (cases "map_of al ip")
    case None
    then have al': "al' = al @ [(ip, \<lparr>addresses = [a], nextPos = 0\<rparr>)]"
      using assms(2) ip by (simp add: add_addr_def Let_def)
    have notin: "ip \<notin> fst ` set al" using None by (simp add: map_of_eq_None_iff)
    have "Inr ip \<notin> UDPAddr_IP_String ` set R"
      using None m by (auto simp: grouping_def split: if_splits)
    then have "filter (\<lambda>a. UDPAddr_IP_String a = Inr ip) R = []"
      by (force simp: filter_empty_conv image_iff)
    then have g: "group_of (R @ [a]) ip = \<lparr>addresses = [a], nextPos = 0\<rparr>"
      using ip by (simp add: group_of_def)
    have "map_of al' = (map_of al)(ip \<mapsto> \<lparr>addresses = [a], nextPos = 0\<rparr>)"
      unfolding al' using None by (auto simp: map_add_def fun_eq_iff split: option.splits)
    then have "map_of al' = grouping (R @ [a])"
      using m g grouping_snoc [OF ip, of R] by simp
    moreover have "distinct (map fst al')" using d notin al' by simp
    ultimately show ?thesis using u by (simp add: grouped_def)
  next
    case (Some mpa)
    then have al': "al' = AList.update ip (mpa\<lparr>addresses := addresses mpa @ [a]\<rparr>) al"
      using assms(2) ip by (simp add: add_addr_def Let_def)
    have "Some mpa = grouping R ip" using Some m by simp
    then have "mpa = group_of R ip" by (auto simp: grouping_def split: if_splits)
    then have g: "mpa\<lparr>addresses := addresses mpa @ [a]\<rparr> = group_of (R @ [a]) ip"
      using ip by (simp add: group_of_def)
    have "map_of al' = (map_of al)(ip \<mapsto> group_of (R @ [a]) ip)"
      unfolding al' g by (rule update_conv')
    then have "map_of al' = grouping (R @ [a])"
      using m grouping_snoc [OF ip, of R] by simp
    moreover have "distinct (map fst al')" unfolding al' using d by (rule distinct_update)
    ultimately show ?thesis using u by (simp add: grouped_def)
  qed
qed

lemma add_addrs_grouped:
  "grouped R al \<Longrightarrow> add_addrs mux as (a2m, al) = Inr (a2m', al') \<Longrightarrow> grouped (R @ as) al'"
proof (induction as arbitrary: R a2m al)
  case Nil
  then show ?case by simp
next
  case (Cons a as)
  from Cons.prems(2) obtain a1 al1 where 1: "add_addr mux a (a2m, al) = Inr (a1, al1)"
    and 2: "add_addrs mux as (a1, al1) = Inr (a2m', al')"
    by (auto split: sum.splits)
  have "grouped (R @ [a]) al1" using Cons.prems(1) 1 by (rule add_addr_grouped)
  then have "grouped ((R @ [a]) @ as) al'" using 2 by (rule Cons.IH)
  then show ?case by simp
qed

lemma add_muxes_grouped:
  "grouped R al \<Longrightarrow> add_muxes E ms (a2m, al) s = (Inr (a2m', al'), s') \<Longrightarrow>
     grouped (R @ reported_addrs (events_since s s')) al'"
proof (induction ms arbitrary: R a2m al s)
  case Nil
  then show ?case by (simp add: events_since_def)
next
  case (Cons mux ms)
  obtain as s1 where q: "mux_GetListenAddresses E mux s = (as, s1)"
    by (cases "mux_GetListenAddresses E mux s")
  then have t1: "trace s1 = trace s @ [CallGetListenAddresses mux as]"
    by (auto simp: mux_GetListenAddresses_def split: prod.splits)
  from Cons.prems(2) q obtain a1 al1 where 1: "add_addrs mux as (a2m, al) = Inr (a1, al1)"
    and 2: "add_muxes E ms (a1, al1) s1 = (Inr (a2m', al'), s')"
    by (auto split: sum.splits)
  from add_muxes_trace [OF 2] obtain tr where tr: "trace s' = trace s1 @ tr" by blast
  have e1: "events_since s1 s' = tr" using tr by (rule events_since_append)
  have "trace s' = trace s @ (CallGetListenAddresses mux as # tr)" using tr t1 by simp
  then have e: "events_since s s' = CallGetListenAddresses mux as # tr"
    by (rule events_since_append)
  have "grouped (R @ as) al1" using Cons.prems(1) 1 by (rule add_addrs_grouped)
  then have "grouped ((R @ as) @ reported_addrs (events_since s1 s')) al'"
    using 2 by (rule Cons.IH)
  then show ?case using e e1 by simp
qed

lemma NewMultiUDPMuxDefault_groups:
  assumes "NewMultiUDPMuxDefault E range_order ms s = (Inr m, s')"
    and "is_range_order range_order"
  shows "\<exists>al. multiPortsAddresses m = map snd al \<and> distinct (map fst al)
           \<and> Inr ` fst ` set al = UDPAddr_IP_String ` set (reported_addrs (events_since s s'))
           \<and> (\<forall>(ip, mpa) \<in> set al. mpa = group_of (reported_addrs (events_since s s')) ip)"
proof -
  let ?R = "reported_addrs (events_since s s')"
  from assms(1) obtain a2m al0 where
    am: "add_muxes E ms (Map.empty, []) s = (Inr (a2m, al0), s')"
    and m: "multiPortsAddresses m = map snd (range_order al0)"
    by (auto simp: NewMultiUDPMuxDefault_def split: prod.splits sum.splits)
  have "grouped ([] @ ?R) al0" using grouped_Nil am by (rule add_muxes_grouped)
  then have d0: "distinct (map fst al0)" and m0: "map_of al0 = grouping ?R"
    and u0: "\<forall>a \<in> set ?R. \<exists>ip. UDPAddr_IP_String a = Inr ip"
    by (simp_all add: grouped_def)
  have ms: "mset (range_order al0) = mset al0" using assms(2) by (simp add: is_range_order_def)
  then have st: "set (range_order al0) = set al0" by (rule mset_eq_setD)
  have "mset (map fst (range_order al0)) = mset (map fst al0)" using ms by simp
  then have d: "distinct (map fst (range_order al0))"
    using d0 mset_eq_imp_distinct_iff by blast
  have mem: "(ip, mpa) \<in> set al0 \<longleftrightarrow> grouping ?R ip = Some mpa" for ip mpa
    using d0 m0 by (metis map_of_eq_Some_iff)
  have k: "Inr ` fst ` set (range_order al0) = UDPAddr_IP_String ` set ?R"
  proof -
    have "fst ` set al0 = dom (map_of al0)" by (simp add: dom_map_of_conv_image_fst)
    also have "\<dots> = {ip. Inr ip \<in> UDPAddr_IP_String ` set ?R}"
      unfolding m0 by (auto simp: grouping_def dom_def)
    finally have "fst ` set al0 = {ip. Inr ip \<in> UDPAddr_IP_String ` set ?R}" .
    moreover have "Inr ` {ip. Inr ip \<in> UDPAddr_IP_String ` set ?R} = UDPAddr_IP_String ` set ?R"
      using u0 by (auto simp: image_iff) metis
    ultimately show ?thesis using st by simp
  qed
  have g: "\<forall>(ip, mpa) \<in> set (range_order al0). mpa = group_of ?R ip"
    using mem st by (auto simp: grouping_def split: if_splits)
  from m d k g show ?thesis by blast
qed

subsection \<open>GetListenAddresses\<close>

lemma GetListenAddresses_loop_in_range:
  assumes "\<forall>g \<in> set gs. 0 < length (addresses g) \<and> length (addresses g) < 2^31
             \<and> 0 \<le> sint (nextPos g) \<and> sint (nextPos g) < 2^31 - 1"
  shows "GetListenAddresses_loop gs =
           Inr (map (\<lambda>g. addresses g ! ((nat (sint (nextPos g)) + 1) mod length (addresses g))) gs,
                map (\<lambda>g. g\<lparr>nextPos := nextPos g + 1\<rparr>) gs)"
  using assms
proof (induction gs)
  case Nil
  then show ?case by simp
next
  case (Cons g gs)
  have "next_addr g =
    Inr (addresses g ! ((nat (sint (nextPos g)) + 1) mod length (addresses g)),
         g\<lparr>nextPos := nextPos g + 1\<rparr>)"
    using Cons.prems by (intro next_addr_in_range) simp_all
  moreover have "GetListenAddresses_loop gs =
           Inr (map (\<lambda>g. addresses g ! ((nat (sint (nextPos g)) + 1) mod length (addresses g))) gs,
                map (\<lambda>g. g\<lparr>nextPos := nextPos g + 1\<rparr>) gs)"
    using Cons.prems by (intro Cons.IH) simp
  ultimately show ?case by simp
qed

lemma GetListenAddresses_at_pos:
  assumes "\<forall>g \<in> set gs. 0 < length (addresses g) \<and> length (addresses g) < 2^31"
    and "c < 2147483647"
  shows "GetListenAddresses (m\<lparr>multiPortsAddresses := set_pos c gs\<rparr>) =
           Inr (map (\<lambda>g. addresses g ! ((c + 1) mod length (addresses g))) gs,
                m\<lparr>multiPortsAddresses := set_pos (Suc c) gs\<rparr>)"
proof -
  have s: "sint (word_of_nat c :: int32) = int c" using assms(2) by (intro sint_int32_of_nat) simp
  have "\<forall>g \<in> set (set_pos c gs). 0 < length (addresses g) \<and> length (addresses g) < 2^31
             \<and> 0 \<le> sint (nextPos g) \<and> sint (nextPos g) < 2^31 - 1"
    using assms s by (auto simp: set_pos_def)
  then have "GetListenAddresses_loop (set_pos c gs) =
           Inr (map (\<lambda>g. addresses g ! ((nat (sint (nextPos g)) + 1) mod length (addresses g))) (set_pos c gs),
                map (\<lambda>g. g\<lparr>nextPos := nextPos g + 1\<rparr>) (set_pos c gs))"
    by (rule GetListenAddresses_loop_in_range)
  moreover have "map (\<lambda>g. addresses g ! ((nat (sint (nextPos g)) + 1) mod length (addresses g))) (set_pos c gs)
      = map (\<lambda>g. addresses g ! ((c + 1) mod length (addresses g))) gs"
    using s by (simp add: set_pos_def comp_def)
  moreover have "map (\<lambda>g. g\<lparr>nextPos := nextPos g + 1\<rparr>) (set_pos c gs) = set_pos (Suc c) gs"
    by (simp add: set_pos_def comp_def add.commute)
  ultimately show ?thesis by (simp add: GetListenAddresses_def)
qed

lemma GetListenAddresses_n_from_pos:
  assumes "\<forall>g \<in> set gs. 0 < length (addresses g) \<and> length (addresses g) < 2^31"
    and "c + j \<le> 2147483647"
  shows "GetListenAddresses_n j (m\<lparr>multiPortsAddresses := set_pos c gs\<rparr>) =
           Inr (map (\<lambda>i. map (\<lambda>g. addresses g ! ((c + i + 1) mod length (addresses g))) gs) [0..<j],
                m\<lparr>multiPortsAddresses := set_pos (c + j) gs\<rparr>)"
  using assms(2)
proof (induction j arbitrary: c)
  case 0
  then show ?case by simp
next
  case (Suc j)
  have c: "c < 2147483647" using Suc.prems by simp
  have 1: "GetListenAddresses (m\<lparr>multiPortsAddresses := set_pos c gs\<rparr>) =
           Inr (map (\<lambda>g. addresses g ! ((c + 1) mod length (addresses g))) gs,
                m\<lparr>multiPortsAddresses := set_pos (Suc c) gs\<rparr>)"
    using assms(1) c by (rule GetListenAddresses_at_pos)
  have 2: "GetListenAddresses_n j (m\<lparr>multiPortsAddresses := set_pos (Suc c) gs\<rparr>) =
           Inr (map (\<lambda>i. map (\<lambda>g. addresses g ! ((Suc c + i + 1) mod length (addresses g))) gs) [0..<j],
                m\<lparr>multiPortsAddresses := set_pos (Suc c + j) gs\<rparr>)"
    using Suc.prems by (intro Suc.IH) simp
  have "map (\<lambda>i. map (\<lambda>g. addresses g ! ((c + i + 1) mod length (addresses g))) gs) [0..<Suc j]
      = map (\<lambda>g. addresses g ! ((c + 1) mod length (addresses g))) gs
        # map (\<lambda>i. map (\<lambda>g. addresses g ! ((Suc c + i + 1) mod length (addresses g))) gs) [0..<j]"
    by (simp add: map_upt_Suc del: upt_Suc)
  then show ?case using 1 2 by (simp del: upt_Suc)
qed

lemma group_of_pick:
  assumes "Inr ip \<in> UDPAddr_IP_String ` set R"
  shows "addresses (group_of R ip) \<noteq> []"
    and "addresses (group_of R ip) ! (i mod length (addresses (group_of R ip))) \<in> set R"
    and "UDPAddr_IP_String (addresses (group_of R ip) ! (i mod length (addresses (group_of R ip)))) = Inr ip"
    and "length (addresses (group_of R ip)) \<le> length R"
    and "nextPos (group_of R ip) = 0"
proof -
  let ?f = "filter (\<lambda>a. UDPAddr_IP_String a = Inr ip) R"
  from assms obtain a where "a \<in> set R" "UDPAddr_IP_String a = Inr ip" by force
  then have ne: "?f \<noteq> []" by (auto simp: filter_empty_conv)
  then show "addresses (group_of R ip) \<noteq> []" by (simp add: group_of_def)
  have "?f ! (i mod length ?f) \<in> set ?f" using ne by (intro nth_mem) simp
  then show "addresses (group_of R ip) ! (i mod length (addresses (group_of R ip))) \<in> set R"
    and "UDPAddr_IP_String (addresses (group_of R ip) ! (i mod length (addresses (group_of R ip)))) = Inr ip"
    by (simp_all add: group_of_def)
  show "length (addresses (group_of R ip)) \<le> length R" by (simp add: group_of_def)
  show "nextPos (group_of R ip) = 0" by (simp add: group_of_def)
qed

text \<open>
  Each of the first 2147483647 calls of \<open>GetListenAddresses()\<close> on an aggregate just built
  returns one address per distinct IP reported: the IPs of the result are distinct and are
  those reported, every address returned was reported, and every cursor advances by one.
\<close>

lemma GetListenAddresses_one_per_IP:
  assumes built: "NewMultiUDPMuxDefault E range_order ms s = (Inr m, s')"
    and perm: "is_range_order range_order"
    and small: "length (reported_addrs (events_since s s')) < 2^31"
    and j: "j < 2147483647"
  shows "\<exists>ls mj addrs mj'.
           GetListenAddresses_n j m = Inr (ls, mj)
         \<and> GetListenAddresses mj = Inr (addrs, mj')
         \<and> length addrs = card (UDPAddr_IP_String ` set (reported_addrs (events_since s s')))
         \<and> distinct (map UDPAddr_IP_String addrs)
         \<and> UDPAddr_IP_String ` set addrs = UDPAddr_IP_String ` set (reported_addrs (events_since s s'))
         \<and> set addrs \<subseteq> set (reported_addrs (events_since s s'))
         \<and> map addresses (multiPortsAddresses mj') = map addresses (multiPortsAddresses mj)
         \<and> map nextPos (multiPortsAddresses mj') = map (\<lambda>g. nextPos g + 1) (multiPortsAddresses mj)"
proof -
  let ?R = "reported_addrs (events_since s s')"
  from NewMultiUDPMuxDefault_groups [OF built perm] obtain al where
    gs: "multiPortsAddresses m = map snd al" and d: "distinct (map fst al)"
    and k: "Inr ` fst ` set al = UDPAddr_IP_String ` set ?R"
    and g: "\<forall>(ip, mpa) \<in> set al. mpa = group_of ?R ip" by blast
  let ?gs = "map snd al"
  have mem: "Inr ip \<in> UDPAddr_IP_String ` set ?R \<and> mpa = group_of ?R ip"
    if "(ip, mpa) \<in> set al" for ip mpa
  proof -
    have "(Inr ip :: panic + string) \<in> Inr ` fst ` set al" using that by force
    then have "Inr ip \<in> UDPAddr_IP_String ` set ?R" unfolding k .
    moreover have "mpa = group_of ?R ip" using g that by auto
    ultimately show ?thesis by simp
  qed
  have sz: "\<forall>g \<in> set ?gs. 0 < length (addresses g) \<and> length (addresses g) < 2^31"
  proof
    fix x assume "x \<in> set ?gs"
    then obtain ip where "(ip, x) \<in> set al" by auto
    then have "Inr ip \<in> UDPAddr_IP_String ` set ?R" "x = group_of ?R ip" using mem by blast+
    then show "0 < length (addresses x) \<and> length (addresses x) < 2^31"
      using group_of_pick(1,4) [of ip ?R] small by auto
  qed
  have fresh: "set_pos 0 ?gs = ?gs"
  proof -
    have "x\<lparr>nextPos := 0\<rparr> = x" if "x \<in> set ?gs" for x
    proof -
      from that obtain ip where "(ip, x) \<in> set al" by auto
      then have "x = group_of ?R ip" using mem by blast
      then have "nextPos x = 0" by (simp add: group_of_def)
      then show ?thesis by simp
    qed
    then show ?thesis by (simp add: set_pos_def map_idI)
  qed
  have m0: "m = m\<lparr>multiPortsAddresses := set_pos 0 ?gs\<rparr>" using fresh gs by simp
  define mj where "mj = m\<lparr>multiPortsAddresses := set_pos j ?gs\<rparr>"
  define mj' where "mj' = m\<lparr>multiPortsAddresses := set_pos (Suc j) ?gs\<rparr>"
  define addrs where "addrs = map (\<lambda>g. addresses g ! ((j + 1) mod length (addresses g))) ?gs"
  have "GetListenAddresses_n j (m\<lparr>multiPortsAddresses := set_pos 0 ?gs\<rparr>) =
           Inr (map (\<lambda>i. map (\<lambda>g. addresses g ! ((0 + i + 1) mod length (addresses g))) ?gs) [0..<j],
                m\<lparr>multiPortsAddresses := set_pos (0 + j) ?gs\<rparr>)"
    using sz j by (intro GetListenAddresses_n_from_pos) simp_all
  then have 1: "\<exists>ls. GetListenAddresses_n j m = Inr (ls, mj)"
    using m0 by (simp add: mj_def)
  have 2: "GetListenAddresses mj = Inr (addrs, mj')"
    unfolding mj_def mj'_def addrs_def using sz j by (rule GetListenAddresses_at_pos)
  define F where "F = (\<lambda>g :: multiPortsAddress. addresses g ! ((j + 1) mod length (addresses g)))"
  have P: "UDPAddr_IP_String (F (snd x)) = Inr (fst x) \<and> F (snd x) \<in> set ?R"
    if "x \<in> set al" for x
  proof -
    obtain ip mpa where x: "x = (ip, mpa)" by (cases x)
    with that mem have i: "Inr ip \<in> UDPAddr_IP_String ` set ?R" and m: "mpa = group_of ?R ip"
      by blast+
    show ?thesis unfolding F_def x m fst_conv snd_conv
      using group_of_pick(2,3) [OF i, of "j + 1"] by simp
  qed
  have addrs_F: "addrs = map (\<lambda>x. F (snd x)) al"
    by (simp add: addrs_def F_def comp_def)
  have "map UDPAddr_IP_String addrs = map (\<lambda>x. UDPAddr_IP_String (F (snd x))) al"
    unfolding addrs_F by (simp add: comp_def)
  also have "\<dots> = map (\<lambda>x. Inr (fst x)) al"
    using P by (intro map_cong refl) simp
  also have "\<dots> = map Inr (map fst al)" by (simp add: comp_def)
  finally have ips': "map UDPAddr_IP_String addrs = map Inr (map fst al)" .
  have 3: "distinct (map UDPAddr_IP_String addrs)"
    unfolding ips' using d by (simp add: distinct_map inj_on_def del: map_map)
  have "set (map UDPAddr_IP_String addrs) = Inr ` fst ` set al"
    unfolding ips' by (simp only: set_map)
  then have 4: "UDPAddr_IP_String ` set addrs = UDPAddr_IP_String ` set ?R" using k by simp
  have "length (map UDPAddr_IP_String addrs) = card (set (map UDPAddr_IP_String addrs))"
    using 3 by (simp only: distinct_card)
  then have 5: "length addrs = card (UDPAddr_IP_String ` set ?R)" using 4 by simp
  have 6: "set addrs \<subseteq> set ?R"
    unfolding addrs_F using P by auto
  have 7: "map addresses (multiPortsAddresses mj') = map addresses (multiPortsAddresses mj)"
    by (simp add: mj_def mj'_def set_pos_def comp_def)
  have 8: "map nextPos (multiPortsAddresses mj') = map (\<lambda>g. nextPos g + 1) (multiPortsAddresses mj)"
    by (simp add: mj_def mj'_def set_pos_def comp_def add.commute)
  from 1 obtain ls where "GetListenAddresses_n j m = Inr (ls, mj)" by blast
  with 2 3 4 5 6 7 8 show ?thesis by (intro exI conjI)
qed



text \<open>
  Claim C4. The claim says that each call of \<open>GetListenAddresses()\<close> returns one address per
  distinct IP. On the aggregate built from one multiplexer that listens on three ports of
  one IP, the first 2147483647 calls return one address each, and the next call panics
  instead of returning a list.
\<close>

theorem GetListenAddresses_panics_after_overflow:
  "NewMultiUDPMuxDefault example_muxes (\<lambda>al. al) [3] s0 =
     (Inr aggregate3, \<lparr>world = 0, trace = [CallGetListenAddresses 3 [a100, a200, a300]]\<rparr>)
   \<and> GetListenAddresses_n 2147483647 aggregate3 =
       Inr (map (\<lambda>i. [addresses group3 ! ((i + 1) mod 3)]) [0..<2147483647],
            aggregate3\<lparr>multiPortsAddresses := [group3\<lparr>nextPos := 2147483647\<rparr>]\<rparr>)
   \<and> GetListenAddresses (aggregate3\<lparr>multiPortsAddresses := [group3\<lparr>nextPos := 2147483647\<rparr>]\<rparr>) =
       Inl IndexOutOfRange"
proof -
  have 1: "NewMultiUDPMuxDefault example_muxes (\<lambda>al. al) [3] s0 =
     (Inr aggregate3, \<lparr>world = 0, trace = [CallGetListenAddresses 3 [a100, a200, a300]]\<rparr>)"
    by (simp add: NewMultiUDPMuxDefault_def example_muxes_def s0_def aggregate3_def group3_def
        mux_GetListenAddresses_def add_addr_def a100_def a200_def a300_def)
  have sz: "\<forall>g \<in> set [group3]. 0 < length (addresses g) \<and> length (addresses g) < 2^31"
    by (simp add: group3_def)
  have "GetListenAddresses_n 2147483647 (aggregate3\<lparr>multiPortsAddresses := set_pos 0 [group3]\<rparr>) =
           Inr (map (\<lambda>i. map (\<lambda>g. addresses g ! ((0 + i + 1) mod length (addresses g))) [group3]) [0..<2147483647],
                aggregate3\<lparr>multiPortsAddresses := set_pos (0 + 2147483647) [group3]\<rparr>)"
    using sz by (rule GetListenAddresses_n_from_pos) simp
  moreover have "aggregate3\<lparr>multiPortsAddresses := set_pos 0 [group3]\<rparr> = aggregate3"
    by (simp add: set_pos_def aggregate3_def group3_def)
  moreover have "length (addresses group3) = 3" by (simp add: group3_def)
  ultimately have 2: "GetListenAddresses_n 2147483647 aggregate3 =
       Inr (map (\<lambda>i. [addresses group3 ! ((i + 1) mod 3)]) [0..<2147483647],
            aggregate3\<lparr>multiPortsAddresses := [group3\<lparr>nextPos := 2147483647\<rparr>]\<rparr>)"
    by (simp add: set_pos_def)
  have 3: "GetListenAddresses (aggregate3\<lparr>multiPortsAddresses := [group3\<lparr>nextPos := 2147483647\<rparr>]\<rparr>) =
       Inl IndexOutOfRange"
    by (simp add: GetListenAddresses_def aggregate3_def group3_def next_addr_def rem_int32_def
        index_int32_def smod_int_alt_def)
  from 1 2 3 show ?thesis by simp
qed

subsection \<open>Multiplexers that report no address\<close>

lemma reported_strings: "map fst (reported tr) = map Addr_String (reported_addrs tr)"
  by (induction tr rule: reported.induct) (simp_all add: comp_def)

lemma no_address_no_entry:
  assumes "NewMultiUDPMuxDefault E range_order ms s = (Inr m, s')"
    and "is_range_order range_order"
    and "reported_addrs (events_since s s') = []"
  shows "m = \<lparr>muxes = ms, localAddrToMux = Map.empty, multiPortsAddresses = []\<rparr>"
proof -
  from NewMultiUDPMuxDefault_groups [OF assms(1,2)] obtain al where
    al: "multiPortsAddresses m = map snd al"
    "Inr ` fst ` set al = UDPAddr_IP_String ` set (reported_addrs (events_since s s'))"
    by blast
  have "set al = {}" using al(2) assms(3) by simp
  then have g: "multiPortsAddresses m = []" using al(1) by simp
  have "map fst (reported (events_since s s')) = []"
    using assms(3) by (simp add: reported_strings)
  then have "reported (events_since s s') = []" by simp
  then have i: "localAddrToMux m = Map.empty"
    using NewMultiUDPMuxDefault_index(3) [OF assms(1)] by simp
  have c: "muxes m = ms"
    using assms(1) by (auto simp: NewMultiUDPMuxDefault_def split: prod.splits sum.splits)
  show ?thesis using g i c by (cases m) simp
qed

text \<open>
  Claim C9, as amended. \<open>NewMultiUDPMuxDefault\<close> with no multiplexer builds the empty
  aggregate and calls nothing. An aggregate whose multiplexers reported no address, that one
  included, has an empty index and no group: \<open>GetListenAddresses()\<close> returns the empty
  list and \<open>GetConn\<close> fails with \<open>errNoUDPMuxAvailable\<close> for every credential and
  address. \<open>Close()\<close> and \<open>RemoveConnByUfrag\<close> still call every multiplexer supplied,
  \<open>Close()\<close> returning the last error; only when none was supplied does \<open>Close()\<close>
  return nil and \<open>RemoveConnByUfrag\<close> change nothing.
\<close>

theorem aggregate_without_addresses:
  assumes "is_range_order range_order"
  shows "NewMultiUDPMuxDefault E range_order [] s =
           (Inr \<lparr>muxes = [], localAddrToMux = Map.empty, multiPortsAddresses = []\<rparr>, s)
       \<and> (NewMultiUDPMuxDefault E range_order ms s = (Inr m, s')
            \<and> reported_addrs (events_since s s') = [] \<longrightarrow>
            m = \<lparr>muxes = ms, localAddrToMux = Map.empty, multiPortsAddresses = []\<rparr>
          \<and> GetListenAddresses m = Inr ([], m)
          \<and> GetConn E m ufrag addr s'' = ((None, Some errNoUDPMuxAvailable), s'')
          \<and> (\<exists>outs. length outs = length ms
                \<and> trace (snd (Close E m s'')) = trace s'' @ map2 CallClose ms outs
                \<and> fst (Close E m s'') = last_error outs)
          \<and> trace (RemoveConnByUfrag E m ufrag s'') =
                trace s'' @ map (\<lambda>mux. CallRemoveConnByUfrag mux ufrag) ms
          \<and> world (RemoveConnByUfrag E m ufrag s'') =
                fold (\<lambda>mux. impl_RemoveConnByUfrag E mux ufrag) ms (world s'')
          \<and> (ms = [] \<longrightarrow>
                Close E m s'' = (None, s'') \<and> RemoveConnByUfrag E m ufrag s'' = s''))"
proof (intro conjI impI)
  show "NewMultiUDPMuxDefault E range_order [] s =
           (Inr \<lparr>muxes = [], localAddrToMux = Map.empty, multiPortsAddresses = []\<rparr>, s)"
    using range_order_Nil [OF assms] by (simp add: NewMultiUDPMuxDefault_def)
next
  assume a: "NewMultiUDPMuxDefault E range_order ms s = (Inr m, s')
            \<and> reported_addrs (events_since s s') = []"
  then show m: "m = \<lparr>muxes = ms, localAddrToMux = Map.empty, multiPortsAddresses = []\<rparr>"
    using assms no_address_no_entry by blast
  show "GetListenAddresses m = Inr ([], m)"
    unfolding m by (simp add: GetListenAddresses_def)
  show "GetConn E m ufrag addr s'' = ((None, Some errNoUDPMuxAvailable), s'')"
    unfolding m by (simp add: GetConn_def)
  show "\<exists>outs. length outs = length ms
          \<and> trace (snd (Close E m s'')) = trace s'' @ map2 CallClose ms outs
          \<and> fst (Close E m s'') = last_error outs"
    using Close_loop_trace [of E ms None s'' "fst (Close E m s'')" "snd (Close E m s'')"]
    unfolding m by (simp add: Close_def last_error_def)
  show "trace (RemoveConnByUfrag E m ufrag s'') =
          trace s'' @ map (\<lambda>mux. CallRemoveConnByUfrag mux ufrag) ms"
    unfolding m by (simp add: RemoveConnByUfrag_def RemoveConnByUfrag_loop_trace)
  show "world (RemoveConnByUfrag E m ufrag s'') =
          fold (\<lambda>mux. impl_RemoveConnByUfrag E mux ufrag) ms (world s'')"
    unfolding m by (simp add: RemoveConnByUfrag_def RemoveConnByUfrag_loop_world)
  show "Close E m s'' = (None, s'')" if "ms = []"
    unfolding m using that by (simp add: Close_def)
  show "RemoveConnByUfrag E m ufrag s'' = s''" if "ms = []"
    unfolding m using that by (simp add: RemoveConnByUfrag_def)
qed

text \<open>
  With no multiplexer, and with multiplexer 4, which reports no address: the index and the
  groups are empty, and \<open>RemoveConnByUfrag\<close> still calls multiplexer 4.
\<close>

theorem aggregate_without_addresses_witness:
  "is_range_order insertion_order
   \<and> NewMultiUDPMuxDefault example_muxes insertion_order [] s0 =
       (Inr \<lparr>muxes = [], localAddrToMux = Map.empty, multiPortsAddresses = []\<rparr>, s0)
   \<and> NewMultiUDPMuxDefault example_muxes insertion_order [4] s0 = (Inr silent_aggregate, silent_built)
   \<and> reported_addrs (events_since s0 silent_built) = []
   \<and> GetListenAddresses silent_aggregate = Inr ([], silent_aggregate)
   \<and> GetConn example_muxes silent_aggregate ''ufrag'' a100 silent_built =
       ((None, Some errNoUDPMuxAvailable), silent_built)
   \<and> trace (RemoveConnByUfrag example_muxes silent_aggregate ''ufrag'' silent_built) =
       trace silent_built @ [CallRemoveConnByUfrag 4 ''ufrag'']"
proof -
  have p: "is_range_order insertion_order"
    by (simp add: is_range_order_def insertion_order_def)
  have run: "NewMultiUDPMuxDefault example_muxes insertion_order [4] s0 =
      (Inr silent_aggregate, silent_built)"
    by (simp add: NewMultiUDPMuxDefault_def example_muxes_def s0_def silent_aggregate_def
        silent_built_def mux_GetListenAddresses_def insertion_order_def)
  have r: "reported_addrs (events_since s0 silent_built) = []"
    by (simp add: events_since_def s0_def silent_built_def)
  from aggregate_without_addresses [OF p, of example_muxes s0 "[4]" silent_aggregate
      silent_built "''ufrag''" a100 silent_built] p run r
  show ?thesis by simp
qed

text \<open>
  Claim C9 as stated also covers an aggregate whose multiplexers report no address, and says
  that \<open>Close()\<close> returns nil and \<open>RemoveConnByUfrag\<close> is a no-op on it. On the aggregate of
  multiplexer 4, which reports no address and fails to close, \<open>Close()\<close> returns that
  error and \<open>RemoveConnByUfrag\<close> calls the multiplexer.
\<close>

theorem Close_fails_without_addresses:
  "NewMultiUDPMuxDefault example_muxes insertion_order [4] s0 = (Inr silent_aggregate, silent_built)
   \<and> reported_addrs (events_since s0 silent_built) = []
   \<and> Close example_muxes silent_aggregate silent_built =
       (Some (ErrOther ''close 4''),
        \<lparr>world = 1,
          trace = [CallGetListenAddresses 4 [], CallClose 4 (Some (ErrOther ''close 4''))]\<rparr>)
   \<and> fst (Close example_muxes silent_aggregate silent_built) \<noteq> None
   \<and> RemoveConnByUfrag example_muxes silent_aggregate ''ufrag'' silent_built =
       \<lparr>world = 1, trace = [CallGetListenAddresses 4 [], CallRemoveConnByUfrag 4 ''ufrag'']\<rparr>
   \<and> RemoveConnByUfrag example_muxes silent_aggregate ''ufrag'' silent_built \<noteq> silent_built"
  by (simp add: NewMultiUDPMuxDefault_def example_muxes_def s0_def silent_aggregate_def
      silent_built_def mux_GetListenAddresses_def insertion_order_def events_since_def
      Close_def mux_Close_def RemoveConnByUfrag_def mux_RemoveConnByUfrag_def)

end
